theory Spec2Isabelle
  imports Main
begin

section \<open>Data model\<close>

text \<open>
  The program (\<^verbatim>\<open>merge_files_app.py\<close>) keeps its tables in pandas data frames.
  A frame is modelled as its ordered column labels and its ordered rows; a row is the list
  of its cells in column order. A cell is a text or the missing marker (pandas' NaN).
  Column labels are taken after \<^verbatim>\<open>str(col)\<close>. Strings are lists of
  single-byte characters: the whitespace and letter case functions below follow Python
  on ASCII text.
\<close>

datatype cell = Text string | Missing

record table =
  columns :: "string list"
  rows :: "cell list list"

text \<open>\<^verbatim>\<open>pd.DataFrame()\<close>: no columns and no rows.\<close>

definition empty_frame :: table where
  "empty_frame = \<lparr>columns = [], rows = []\<rparr>"

text \<open>\<^verbatim>\<open>df.empty\<close>: true when either axis has length zero.\<close>

definition df_empty :: "table \<Rightarrow> bool" where
  "df_empty df = (columns df = [] \<or> rows df = [])"

text \<open>The exceptions of Python and pandas that the modelled paths can raise.\<close>

datatype py_error =
    KeyError string
  | AttributeError
  | ValueError
  | TypeError
  | InvalidIndexError
  | MergeError

text \<open>
  The messages the program shows: \<^verbatim>\<open>st.error\<close> and \<^verbatim>\<open>st.warning\<close>
  calls, in the order they are issued.
\<close>

datatype diagnostic =
    FileTooLarge string
  | ReadError string string
  | SchemaMismatch string
  | MappingFailed string py_error
  | MappingFileError py_error
  | MappingReadError string

text \<open>
  An uploaded file: its name, its size in bytes and what the pandas reader chosen by the
  name's suffix (\<^verbatim>\<open>read_csv\<close> or \<^verbatim>\<open>read_excel\<close>) does with it: an
  exception (its message) or a frame.
\<close>

record upload =
  name :: string
  size_bytes :: nat
  parsed :: "string + table"

text \<open>
  The script's variables that outlive one step: \<^verbatim>\<open>merged_df\<close>,
  \<^verbatim>\<open>map_df\<close>, \<^verbatim>\<open>mapped_columns\<close>, the messages shown so far
  and \<^verbatim>\<open>st.session_state.lookup_done\<close>.
\<close>

record session =
  merged_df :: table
  map_df :: table
  mapped_columns :: "string list"
  messages :: "diagnostic list"
  lookup_done :: bool

definition initial_session :: session where
  "initial_session =
     \<lparr>merged_df = empty_frame, map_df = empty_frame, mapped_columns = [], messages = [],
      lookup_done = False\<rparr>"

section \<open>Strings\<close>

text \<open>The ASCII characters for which Python's \<^verbatim>\<open>str.isspace\<close> holds.\<close>

definition is_space :: "char \<Rightarrow> bool" where
  "is_space c = (c \<in> set [CHR 0x09, CHR 0x0A, CHR 0x0B, CHR 0x0C, CHR 0x0D,
                            CHR 0x1C, CHR 0x1D, CHR 0x1E, CHR 0x1F, CHR 0x20])"

text \<open>\<^verbatim>\<open>s.strip()\<close>\<close>

definition strip :: "string \<Rightarrow> string" where
  "strip s = rev (dropWhile is_space (rev (dropWhile is_space s)))"

definition upper_char :: "char \<Rightarrow> char" where
  "upper_char c =
     (case map_of (zip ''abcdefghijklmnopqrstuvwxyz'' ''ABCDEFGHIJKLMNOPQRSTUVWXYZ'') c of
        Some u \<Rightarrow> u
      | None \<Rightarrow> c)"

text \<open>\<^verbatim>\<open>s.upper()\<close>\<close>

definition upper :: "string \<Rightarrow> string" where
  "upper s = map upper_char s"

fun starts_with :: "string \<Rightarrow> string \<Rightarrow> bool" where
  "starts_with s [] = True"
| "starts_with [] (p # ps) = False"
| "starts_with (c # cs) (p # ps) = (c = p \<and> starts_with cs ps)"

text \<open>\<^verbatim>\<open>sub in s\<close>\<close>

fun str_contains :: "string \<Rightarrow> string \<Rightarrow> bool" where
  "str_contains [] sub = (sub = [])"
| "str_contains (c # cs) sub = (starts_with (c # cs) sub \<or> str_contains cs sub)"

text \<open>The decimal numeral of a natural number, as an f-string prints it.\<close>

function str_nat :: "nat \<Rightarrow> string" where
  "str_nat n =
     (if n < 10 then [''0123456789'' ! n]
      else str_nat (n div 10) @ [''0123456789'' ! (n mod 10)])"
  by pat_completeness auto
termination
  by (relation "measure id") auto

declare str_nat.simps [simp del]

section \<open>Column names\<close>

text \<open>
  \<^verbatim>\<open>deduplicate_columns\<close> (lines 31 to 40). \<open>seen\<close> is the
  \<^verbatim>\<open>Counter\<close>: a count for every name, zero for a name not met yet.
\<close>

fun dedup_loop :: "(string \<Rightarrow> nat) \<Rightarrow> string list \<Rightarrow> string list \<Rightarrow> string list" where
  "dedup_loop seen new_cols [] = new_cols"
| "dedup_loop seen new_cols (col # cols) =
     dedup_loop (seen(col := seen col + 1))
       (new_cols @ [if seen col \<noteq> 0 then col @ ''_'' @ str_nat (seen col) else col])
       cols"

declare dedup_loop.simps [simp del]

definition deduplicate_columns :: "string list \<Rightarrow> string list" where
  "deduplicate_columns cols = dedup_loop (\<lambda>_. 0) [] cols"

text \<open>
  Line 78, for one label of an input file:
  \<^verbatim>\<open>"" if "Unnamed" in str(col) else str(col).strip()\<close>
\<close>

definition blank_or_strip :: "string \<Rightarrow> string" where
  "blank_or_strip col = (if str_contains col ''Unnamed'' then [] else strip col)"

section \<open>Merging the uploaded files\<close>

text \<open>
  The value of a row of a frame with labels \<open>cols\<close> under label \<open>c\<close>, for
  pandas' reindexing: the cell of the (first) column of that name, missing when the frame
  has no such column.
\<close>

definition cell_at :: "string list \<Rightarrow> cell list \<Rightarrow> string \<Rightarrow> cell" where
  "cell_at cols r c = (case map_of (zip cols r) c of Some v \<Rightarrow> v | None \<Rightarrow> Missing)"

definition reindex_row :: "string list \<Rightarrow> string list \<Rightarrow> cell list \<Rightarrow> cell list" where
  "reindex_row cols new_cols r = map (cell_at cols r) new_cols"

text \<open>
  \<^verbatim>\<open>pd.concat([a, b], ignore_index=True)\<close>. pandas leaves out a frame of
  shape (0, 0). Frames with equal labels are stacked. Otherwise the result has the labels
  of \<open>a\<close> followed by the new labels of \<open>b\<close>, each frame is reindexed to them
  (missing cells where it has no such column), and a frame with a repeated label cannot
  be reindexed: pandas raises \<^verbatim>\<open>InvalidIndexError\<close>.
\<close>

definition pd_concat :: "table \<Rightarrow> table \<Rightarrow> py_error + table" where
  "pd_concat a b =
     (if columns a = [] \<and> rows a = [] then Inr b
      else if columns b = [] \<and> rows b = [] then Inr a
      else if columns a = columns b then Inr \<lparr>columns = columns a, rows = rows a @ rows b\<rparr>
      else if distinct (columns a) \<and> distinct (columns b) then
        (let cols = columns a @ filter (\<lambda>c. c \<notin> set (columns a)) (columns b)
         in Inr \<lparr>columns = cols,
                 rows = map (reindex_row (columns a) cols) (rows a) @
                        map (reindex_row (columns b) cols) (rows b)\<rparr>)
      else Inl InvalidIndexError)"

text \<open>
  Lines 78 to 80: the labels are blanked or trimmed, and a file that is not at position 0
  of the upload list loses its first row.
\<close>

definition prepare :: "nat \<Rightarrow> table \<Rightarrow> table" where
  "prepare idx df =
     (let df1 = df\<lparr>columns := map blank_or_strip (columns df)\<rparr>
      in if idx > 0 then df1\<lparr>rows := drop 1 (rows df1)\<rparr> else df1)"

text \<open>
  One round of the loop of lines 67 to 86, for the file at position \<open>idx\<close>.
  \<^verbatim>\<open>pd.concat\<close> is outside the \<^verbatim>\<open>try\<close>: its exception ends the
  script (\<open>Inl\<close>).
\<close>

definition merge_step :: "nat \<Rightarrow> upload \<Rightarrow> session \<Rightarrow> py_error + session" where
  "merge_step idx file s =
     (if size_bytes file > 1073741824 then
        Inr (s\<lparr>messages := messages s @ [FileTooLarge (name file)]\<rparr>)
      else
        (case parsed file of
           Inl e \<Rightarrow> Inr (s\<lparr>messages := messages s @ [ReadError (name file) e]\<rparr>)
         | Inr df0 \<Rightarrow>
             (let df = prepare idx df0 in
              if \<not> df_empty (merged_df s) \<and> columns df \<noteq> columns (merged_df s) then
                Inr (s\<lparr>messages := messages s @ [SchemaMismatch (name file)]\<rparr>)
              else
                (case pd_concat (merged_df s) df of
                   Inl e \<Rightarrow> Inl e
                 | Inr m \<Rightarrow> Inr (s\<lparr>merged_df := m\<rparr>)))))"

fun merge_loop :: "nat \<Rightarrow> upload list \<Rightarrow> session \<Rightarrow> py_error + session" where
  "merge_loop idx [] s = Inr s"
| "merge_loop idx (file # files) s =
     (case merge_step idx file s of
        Inl e \<Rightarrow> Inl e
      | Inr s' \<Rightarrow> merge_loop (Suc idx) files s')"

text \<open>Lines 63 to 86: the merge of the uploaded files, from an empty frame.\<close>

definition merge_files :: "upload list \<Rightarrow> py_error + session" where
  "merge_files uploaded_files = merge_loop 0 uploaded_files initial_session"

section \<open>Reading the mapping file\<close>

text \<open>
  Lines 102 to 105 and 145 to 146: the mapping file is read and its labels are
  deduplicated. A failure to read is reported and no mapping table is set.
\<close>

definition load_mapping :: "upload \<Rightarrow> session \<Rightarrow> session" where
  "load_mapping mapping_file s =
     (case parsed mapping_file of
        Inl e \<Rightarrow> s\<lparr>messages := messages s @ [MappingReadError e]\<rparr>
      | Inr df \<Rightarrow> s\<lparr>map_df := df\<lparr>columns := deduplicate_columns (columns df)\<rparr>\<rparr>)"

section \<open>The lookup\<close>

text \<open>The choice of the radio button of line 114: \<^verbatim>\<open>"merge"\<close> or \<^verbatim>\<open>"map"\<close>.\<close>

datatype lookup_method = Method_merge | Method_map

text \<open>\<^verbatim>\<open>astype(str)\<close> on a cell: pandas prints the missing marker as \<^verbatim>\<open>nan\<close>.\<close>

definition to_str :: "cell \<Rightarrow> string" where
  "to_str c = (case c of Text s \<Rightarrow> s | Missing \<Rightarrow> ''nan'')"

text \<open>\<^verbatim>\<open>.astype(str).str.strip().str.upper()\<close> on a cell (lines 117 and 118).\<close>

definition normalize_key :: "cell \<Rightarrow> cell" where
  "normalize_key c = Text (upper (strip (to_str c)))"

text \<open>The position of the first column with label \<open>c\<close>.\<close>

fun index_of :: "string list \<Rightarrow> string \<Rightarrow> nat" where
  "index_of [] c = 0"
| "index_of (x # xs) c = (if x = c then 0 else Suc (index_of xs c))"

text \<open>
  \<^verbatim>\<open>df[key] = df[key].astype(str).str.strip().str.upper()\<close>. A label that is
  not a column raises \<^verbatim>\<open>KeyError\<close>; for a label that several columns have,
  \<^verbatim>\<open>df[key]\<close> is a frame, which has no \<^verbatim>\<open>.str\<close>.
\<close>

definition normalize_key_column :: "string \<Rightarrow> table \<Rightarrow> py_error + table" where
  "normalize_key_column key df =
     (if key \<notin> set (columns df) then Inl (KeyError key)
      else if count_list (columns df) key > 1 then Inl AttributeError
      else Inr (df\<lparr>rows :=
                  map (\<lambda>r. r[index_of (columns df) key := normalize_key (cell_at (columns df) r key)])
                    (rows df)\<rparr>))"

definition nth_cell :: "cell list \<Rightarrow> nat \<Rightarrow> cell" where
  "nth_cell r i = (if i < length r then r ! i else Missing)"

text \<open>The positions of the columns with label \<open>c\<close>, in order.\<close>

fun label_positions :: "string list \<Rightarrow> string \<Rightarrow> nat list" where
  "label_positions [] c = []"
| "label_positions (x # xs) c = (if x = c then [0] else []) @ map Suc (label_positions xs c)"

text \<open>
  \<^verbatim>\<open>df[labels]\<close> with a list of labels: the columns of each label, in the order
  of the list; \<^verbatim>\<open>KeyError\<close> for a label that is not a column.
\<close>

definition select_columns :: "table \<Rightarrow> string list \<Rightarrow> py_error + table" where
  "select_columns df labels =
     (case filter (\<lambda>l. l \<notin> set (columns df)) labels of
        l # _ \<Rightarrow> Inl (KeyError l)
      | [] \<Rightarrow>
          (let idxs = concat (map (label_positions (columns df)) labels)
           in Inr \<lparr>columns = map (\<lambda>i. columns df ! i) idxs,
                   rows = map (\<lambda>r. map (nth_cell r) idxs) (rows df)\<rparr>))"

text \<open>\<^verbatim>\<open>df.rename(columns={old: new})\<close>\<close>

definition rename_column :: "string \<Rightarrow> string \<Rightarrow> table \<Rightarrow> table" where
  "rename_column old new df = df\<lparr>columns := map (\<lambda>c. if c = old then new else c) (columns df)\<rparr>"

text \<open>A frame without the columns of label \<open>c\<close>.\<close>

definition drop_column :: "table \<Rightarrow> string \<Rightarrow> table" where
  "drop_column df c =
     \<lparr>columns = filter (\<lambda>l. l \<noteq> c) (columns df),
      rows = map (\<lambda>r. map snd (filter (\<lambda>(l, v). l \<noteq> c) (zip (columns df) r))) (rows df)\<rparr>"

text \<open>
  The labels of one side of a merge: a label that the other side has too gets the side's
  suffix.
\<close>

definition suffix_labels :: "string list \<Rightarrow> string list \<Rightarrow> string \<Rightarrow> string list" where
  "suffix_labels cols other sfx = map (\<lambda>c. if c \<in> set other then c @ sfx else c) cols"

text \<open>
  pandas refuses suffixes that make two labels of one side equal: a position whose new
  label stands before it among the new labels, while its old label did not among the old.
\<close>

definition suffix_causes_duplicates :: "string list \<Rightarrow> string list \<Rightarrow> bool" where
  "suffix_causes_duplicates old new =
     list_ex (\<lambda>i. new ! i \<in> set (take i new) \<and> old ! i \<notin> set (take i old)) [0..<length new]"

text \<open>
  \<^verbatim>\<open>left.merge(right, left_on=left_on, right_on=right_on, how="left")\<close>, as
  pandas 2 does it. A key label that is no column raises \<^verbatim>\<open>KeyError\<close>, one
  that several columns have \<^verbatim>\<open>ValueError\<close>. Every row of \<open>left\<close>, in
  order, is paired with the rows of \<open>right\<close> that have its key, in their order, and
  with missing cells when there is none. The right key column is left out when both keys
  have one name. Labels that both sides have get the suffixes \<^verbatim>\<open>_x\<close> and
  \<^verbatim>\<open>_y\<close>; suffixes that give one side two equal labels raise
  \<^verbatim>\<open>MergeError\<close>.
\<close>

definition pd_merge_left :: "table \<Rightarrow> table \<Rightarrow> string \<Rightarrow> string \<Rightarrow> py_error + table" where
  "pd_merge_left left right left_on right_on =
     (if right_on \<notin> set (columns right) then Inl (KeyError right_on)
      else if count_list (columns right) right_on > 1 then Inl ValueError
      else if left_on \<notin> set (columns left) then Inl (KeyError left_on)
      else if count_list (columns left) left_on > 1 then Inl ValueError
      else
        (let right_keys = map (\<lambda>m. cell_at (columns right) m right_on) (rows right);
             right' = (if left_on = right_on then drop_column right right_on else right);
             llabels = suffix_labels (columns left) (columns right') ''_x'';
             rlabels = suffix_labels (columns right') (columns left) ''_y''
         in if suffix_causes_duplicates (columns left) llabels \<or>
               suffix_causes_duplicates (columns right') rlabels
            then Inl MergeError
            else Inr \<lparr>columns = llabels @ rlabels,
                      rows = concat (map (\<lambda>l.
                        (case filter (\<lambda>(k, m). k = cell_at (columns left) l left_on)
                                (zip right_keys (rows right')) of
                           [] \<Rightarrow> [l @ replicate (length (columns right')) Missing]
                         | ms \<Rightarrow> map (\<lambda>(k, m). l @ m) ms)) (rows left))\<rparr>))"

text \<open>\<^verbatim>\<open>.fillna("Not Matched")\<close> on the columns of label \<open>c\<close>.\<close>

definition fillna_column :: "table \<Rightarrow> string \<Rightarrow> table" where
  "fillna_column df c =
     df\<lparr>rows := map (\<lambda>r. map (\<lambda>(l, v). if l = c \<and> v = Missing then Text ''Not Matched'' else v)
                             (zip (columns df) r)) (rows df)\<rparr>"

text \<open>
  \<^verbatim>\<open>df[c] = series\<close>, where the series has the value \<open>f r\<close> at row
  \<open>r\<close>: the columns of label \<open>c\<close> are overwritten; without such a column a new
  one is added as the last.
\<close>

definition set_column :: "table \<Rightarrow> string \<Rightarrow> (cell list \<Rightarrow> cell) \<Rightarrow> table" where
  "set_column df c f =
     (if c \<in> set (columns df) then
        df\<lparr>rows := map (\<lambda>r. map (\<lambda>(l, v). if l = c then f r else v) (zip (columns df) r)) (rows df)\<rparr>
      else
        \<lparr>columns = columns df @ [c], rows = map (\<lambda>r. r @ [f r]) (rows df)\<rparr>)"

text \<open>
  The values that iterating \<^verbatim>\<open>df[c]\<close> gives, for a label that is a column: the
  cells of the column, and the label itself once per column when several columns have it
  (\<^verbatim>\<open>df[c]\<close> is then a frame).
\<close>

definition iter_column :: "table \<Rightarrow> string \<Rightarrow> cell list" where
  "iter_column df c =
     (if count_list (columns df) c = 1 then map (\<lambda>r. cell_at (columns df) r c) (rows df)
      else replicate (count_list (columns df) c) (Text c))"

text \<open>
  \<^verbatim>\<open>dict(zip(keys, values))[k]\<close>: of several pairs with one key the last one
  counts. \<open>None\<close> when there is no such key.
\<close>

definition dict_get :: "(cell \<times> cell) list \<Rightarrow> cell \<Rightarrow> cell option" where
  "dict_get pairs k = map_of (rev pairs) k"

text \<open>\<^verbatim>\<open>new_col_name = f"{value_col_map}_mapped"\<close>\<close>

definition new_col_name :: "string \<Rightarrow> string" where
  "new_col_name value_col_map = value_col_map @ ''_mapped''"

text \<open>
  Lines 126 to 128, the \<^verbatim>\<open>"merge"\<close> branch, for one value column: the new
  \<^verbatim>\<open>merged_df\<close> and the exception, if one is raised. When the merge succeeds
  and the new column is not among its labels, \<^verbatim>\<open>merged_df.get\<close> gives the
  default string, which has no \<^verbatim>\<open>fillna\<close>: \<^verbatim>\<open>merged_df\<close> is then
  already the merge.
\<close>

definition lookup_merge :: "table \<Rightarrow> table \<Rightarrow> string \<Rightarrow> string \<Rightarrow> string \<Rightarrow> table \<times> py_error option" where
  "lookup_merge merged mapping key_col_main key_col_map value_col_map =
     (case select_columns mapping [key_col_map, value_col_map] of
        Inl e \<Rightarrow> (merged, Some e)
      | Inr sel \<Rightarrow>
          (let temp_df = rename_column value_col_map (new_col_name value_col_map) sel
           in case pd_merge_left merged temp_df key_col_main key_col_map of
                Inl e \<Rightarrow> (merged, Some e)
              | Inr m \<Rightarrow>
                  if new_col_name value_col_map \<in> set (columns m)
                  then (fillna_column m (new_col_name value_col_map), None)
                  else (m, Some AttributeError)))"

text \<open>
  Lines 130 and 131, the \<^verbatim>\<open>"map"\<close> branch, for one value column. A key column
  of \<^verbatim>\<open>merged_df\<close> that is a frame cannot be mapped with a dictionary.
\<close>

definition lookup_map :: "table \<Rightarrow> table \<Rightarrow> string \<Rightarrow> string \<Rightarrow> string \<Rightarrow> table \<times> py_error option" where
  "lookup_map merged mapping key_col_main key_col_map value_col_map =
     (if key_col_map \<notin> set (columns mapping) then (merged, Some (KeyError key_col_map))
      else if value_col_map \<notin> set (columns mapping) then (merged, Some (KeyError value_col_map))
      else if key_col_main \<notin> set (columns merged) then (merged, Some (KeyError key_col_main))
      else if count_list (columns merged) key_col_main > 1 then (merged, Some TypeError)
      else
        (let lookup_dict = zip (iter_column mapping key_col_map) (iter_column mapping value_col_map)
         in (set_column merged (new_col_name value_col_map)
               (\<lambda>r. case dict_get lookup_dict (cell_at (columns merged) r key_col_main) of
                       None \<Rightarrow> Text ''Not Matched''
                     | Some Missing \<Rightarrow> Text ''Not Matched''
                     | Some (Text x) \<Rightarrow> Text x),
             None)))"

text \<open>
  One round of the loop of lines 122 to 135: a value column that fails is reported, and
  the loop goes on.
\<close>

definition lookup_round :: "lookup_method \<Rightarrow> string \<Rightarrow> string \<Rightarrow> string \<Rightarrow> session \<Rightarrow> session" where
  "lookup_round method key_col_main key_col_map value_col_map s =
     (case (if method = Method_merge
            then lookup_merge (merged_df s) (map_df s) key_col_main key_col_map value_col_map
            else lookup_map (merged_df s) (map_df s) key_col_main key_col_map value_col_map) of
        (m, None) \<Rightarrow>
          s\<lparr>merged_df := m, mapped_columns := mapped_columns s @ [new_col_name value_col_map]\<rparr>
      | (m, Some e) \<Rightarrow>
          s\<lparr>merged_df := m, messages := messages s @ [MappingFailed value_col_map e]\<rparr>)"

fun lookup_loop :: "lookup_method \<Rightarrow> string \<Rightarrow> string \<Rightarrow> string list \<Rightarrow> session \<Rightarrow> session" where
  "lookup_loop method key_col_main key_col_map [] s = s"
| "lookup_loop method key_col_main key_col_map (value_col_map # value_cols) s =
     lookup_loop method key_col_main key_col_map value_cols
       (lookup_round method key_col_main key_col_map value_col_map s)"

text \<open>
  Lines 138 and 139 for one column: \<^verbatim>\<open>pop\<close> takes the column out and
  \<^verbatim>\<open>insert(0, ...)\<close> puts it first. A label without a column raises
  \<^verbatim>\<open>KeyError\<close>. For a label of several columns \<^verbatim>\<open>pop\<close> takes all of
  them out and \<^verbatim>\<open>insert\<close> refuses the frame it is given; the columns are lost.
\<close>

definition move_to_front :: "string \<Rightarrow> table \<Rightarrow> (py_error \<times> table) + table" where
  "move_to_front col df =
     (if col \<notin> set (columns df) then Inl (KeyError col, df)
      else if count_list (columns df) col > 1 then Inl (ValueError, drop_column df col)
      else
        (let i = index_of (columns df) col
         in Inr \<lparr>columns = col # take i (columns df) @ drop (Suc i) (columns df),
                 rows = map (\<lambda>r. nth_cell r i # take i r @ drop (Suc i) r) (rows df)\<rparr>))"

text \<open>The loop of lines 137 to 139, over the reversed list.\<close>

fun reorder_columns :: "string list \<Rightarrow> table \<Rightarrow> (py_error \<times> table) + table" where
  "reorder_columns [] df = Inr df"
| "reorder_columns (col # cols) df =
     (case move_to_front col df of
        Inl e \<Rightarrow> Inl e
      | Inr df' \<Rightarrow> reorder_columns cols df')"

text \<open>
  Lines 116 to 146, the button \<^verbatim>\<open>Perform Lookup\<close>. It is offered only under
  line 88, for a \<^verbatim>\<open>merged_df\<close> that is not empty. An exception outside the
  inner \<^verbatim>\<open>try\<close> is caught by the outer one (line 145); what was assigned before
  it stays. Line 143 shows the new columns and the key column, and fails when the key
  column is no longer there.
\<close>

definition perform_lookup ::
  "string \<Rightarrow> string \<Rightarrow> string list \<Rightarrow> lookup_method \<Rightarrow> session \<Rightarrow> session" where
  "perform_lookup key_col_main key_col_map value_cols_to_map method s =
     (if df_empty (merged_df s) then s
      else
        (case normalize_key_column key_col_main (merged_df s) of
           Inl e \<Rightarrow> s\<lparr>messages := messages s @ [MappingFileError e]\<rparr>
         | Inr t \<Rightarrow>
             (case normalize_key_column key_col_map (map_df s) of
                Inl e \<Rightarrow> s\<lparr>merged_df := t, messages := messages s @ [MappingFileError e]\<rparr>
              | Inr m \<Rightarrow>
                  (let s1 = lookup_loop method key_col_main key_col_map value_cols_to_map
                              (s\<lparr>merged_df := t, map_df := m, mapped_columns := []\<rparr>)
                   in case reorder_columns (rev (mapped_columns s1)) (merged_df s1) of
                        Inl (e, t') \<Rightarrow>
                          s1\<lparr>merged_df := t', messages := messages s1 @ [MappingFileError e]\<rparr>
                      | Inr t' \<Rightarrow>
                          (if key_col_main \<in> set (columns t')
                           then s1\<lparr>merged_df := t', lookup_done := True\<rparr>
                           else s1\<lparr>merged_df := t', lookup_done := True,
                                   messages := messages s1 @ [MappingFileError (KeyError key_col_main)]\<rparr>)))))"


section \<open>Reference definitions\<close>

text \<open>
  The naming rule in the words of the specification: the first occurrence of a name keeps
  it, and an occurrence that has \<open>k\<close> equal names before it gets the suffix
  \<open>_k\<close>. It is what \<open>deduplicate_columns\<close> is compared with.
\<close>

definition spec_dedup_name :: "nat \<Rightarrow> string \<Rightarrow> string" where
  "spec_dedup_name k col = (if k \<noteq> 0 then col @ ''_'' @ str_nat k else col)"

text \<open>
  The invariant of a table in the specification: every row has exactly the table's
  columns. A pandas frame always has it.
\<close>

definition rectangular :: "table \<Rightarrow> bool" where
  "rectangular df = (\<forall>r \<in> set (rows df). length r = length (columns df))"

text \<open>The key \<open>k\<close> has no row in the mapping table.\<close>

definition key_absent :: "table \<Rightarrow> string \<Rightarrow> cell \<Rightarrow> bool" where
  "key_absent mapping key_col_map k =
     (k \<notin> set (map (\<lambda>m. cell_at (columns mapping) m key_col_map) (rows mapping)))"

text \<open>
  What a lookup request is given, in the specification's contract of the lookup engine
  and by the widgets of lines 108 to 113: tables that are rectangular, of which the merged
  one is not empty (line 88); a key column of the merged table, named by one column only;
  a mapping table with distinct labels, as the pandas readers and
  \<open>deduplicate_columns\<close> leave them, and a key column of it; value columns that are
  distinct columns of the mapping table, none of them the key column; and \<open>_mapped\<close>
  names that are new: no column of the merged table has one, nor has the mapping key.
  For the \<^verbatim>\<open>"merge"\<close> method with two different key names, the mapping key's
  name is not a column of the merged table, and the merged key's name is not the mapping
  key's name with one of pandas' suffixes.
\<close>

definition lookup_request_ok ::
  "string \<Rightarrow> string \<Rightarrow> string list \<Rightarrow> lookup_method \<Rightarrow> session \<Rightarrow> bool" where
  "lookup_request_ok key_col_main key_col_map value_cols method s =
     (\<not> df_empty (merged_df s) \<and> rectangular (merged_df s) \<and> rectangular (map_df s) \<and>
      count_list (columns (merged_df s)) key_col_main = 1 \<and>
      distinct (columns (map_df s)) \<and> key_col_map \<in> set (columns (map_df s)) \<and>
      distinct value_cols \<and> set value_cols \<subseteq> set (columns (map_df s)) \<and>
      key_col_map \<notin> set value_cols \<and>
      (\<forall>v \<in> set value_cols.
         new_col_name v \<notin> set (columns (merged_df s)) \<and> new_col_name v \<noteq> key_col_map) \<and>
      (method = Method_merge \<and> key_col_main \<noteq> key_col_map \<longrightarrow>
         key_col_map \<notin> set (columns (merged_df s)) \<and>
         key_col_main \<noteq> key_col_map @ ''_x'' \<and> key_col_main \<noteq> key_col_map @ ''_y''))"

text \<open>
  What holds of the session before every round of the lookup loop, for a request as
  above: \<open>cT\<close> are the labels of the merged table at the start and \<open>rest\<close> the
  value columns still to come.
\<close>

definition lookup_inv :: "string \<Rightarrow> string \<Rightarrow> string list \<Rightarrow> string list \<Rightarrow> session \<Rightarrow> bool" where
  "lookup_inv key_col_main key_col_map cT rest s =
     (rectangular (merged_df s) \<and>
      count_list (columns (merged_df s)) key_col_main = 1 \<and>
      (\<exists>ext. columns (merged_df s) = cT @ ext) \<and>
      distinct (mapped_columns s) \<and>
      (\<forall>c \<in> set (mapped_columns s).
         count_list (columns (merged_df s)) c = 1 \<and> c \<noteq> key_col_map \<and>
         (\<exists>v. c = new_col_name v)) \<and>
      (\<forall>v \<in> set rest. new_col_name v \<notin> set (columns (merged_df s))) \<and>
      (\<forall>r \<in> set (rows (merged_df s)).
         key_absent (map_df s) key_col_map (cell_at (columns (merged_df s)) r key_col_main) \<longrightarrow>
         (\<forall>c \<in> set (mapped_columns s).
            cell_at (columns (merged_df s)) r c = Text ''Not Matched'')))"

text \<open>The keys without a row in the mapping table, in the order of the rows.\<close>

definition absent_keys :: "string \<Rightarrow> string \<Rightarrow> session \<Rightarrow> cell list" where
  "absent_keys key_col_main key_col_map s =
     filter (key_absent (map_df s) key_col_map)
       (map (\<lambda>r. cell_at (columns (merged_df s)) r key_col_main) (rows (merged_df s)))"

section \<open>Properties of the column names\<close>

lemma dedup_loop_length:
  "length (dedup_loop seen new_cols cols) = length new_cols + length cols"
  by (induction cols arbitrary: seen new_cols) (simp_all add: dedup_loop.simps)

lemma deduplicate_columns_length:
  "length (deduplicate_columns cols) = length cols"
  by (simp add: deduplicate_columns_def dedup_loop_length)

text \<open>The names collected so far are a prefix of the result.\<close>

lemma dedup_loop_acc:
  "dedup_loop seen new_cols cols = new_cols @ dedup_loop seen [] cols"
proof (induction cols arbitrary: seen new_cols)
  case Nil
  show ?case by (simp add: dedup_loop.simps)
next
  case (Cons col cols)
  define x where "x = (if seen col \<noteq> 0 then col @ ''_'' @ str_nat (seen col) else col)"
  define s' where "s' = seen(col := seen col + 1)"
  have step: "dedup_loop seen acc (col # cols) = dedup_loop s' (acc @ [x]) cols" for acc
    unfolding x_def s'_def by (rule dedup_loop.simps(2))
  have "dedup_loop seen new_cols (col # cols) = (new_cols @ [x]) @ dedup_loop s' [] cols"
    unfolding step by (rule Cons.IH)
  also have "\<dots> = new_cols @ ([] @ [x]) @ dedup_loop s' [] cols" by simp
  also have "([] @ [x]) @ dedup_loop s' [] cols = dedup_loop seen [] (col # cols)"
    unfolding step by (rule Cons.IH [symmetric])
  finally show ?case .
qed

lemma dedup_loop_Cons:
  "dedup_loop seen [] (col # cols) =
     spec_dedup_name (seen col) col # dedup_loop (seen(col := seen col + 1)) [] cols"
proof -
  have "dedup_loop seen [] (col # cols) =
        dedup_loop (seen(col := seen col + 1)) ([] @ [spec_dedup_name (seen col) col]) cols"
    unfolding spec_dedup_name_def by (rule dedup_loop.simps(2))
  also have "\<dots> = ([] @ [spec_dedup_name (seen col) col]) @
                    dedup_loop (seen(col := seen col + 1)) [] cols"
    by (rule dedup_loop_acc)
  finally show ?thesis by simp
qed

lemma dedup_loop_nth:
  "i < length cols \<Longrightarrow>
   dedup_loop seen [] cols ! i =
     spec_dedup_name (seen (cols ! i) + count_list (take i cols) (cols ! i)) (cols ! i)"
proof (induction cols arbitrary: seen i)
  case Nil
  then show ?case by simp
next
  case (Cons col cols)
  show ?case
  proof (cases i)
    case 0
    then show ?thesis by (simp add: dedup_loop_Cons)
  next
    case (Suc j)
    with Cons.prems have j: "j < length cols" by simp
    define s' where "s' = seen(col := seen col + 1)"
    have s'_at: "s' (cols ! j) = seen (cols ! j) + (if cols ! j = col then 1 else 0)"
      by (simp add: s'_def)
    have "dedup_loop seen [] (col # cols) ! i = dedup_loop s' [] cols ! j"
      unfolding s'_def Suc dedup_loop_Cons by simp
    also have "\<dots> =
        spec_dedup_name (s' (cols ! j) + count_list (take j cols) (cols ! j)) (cols ! j)"
      by (rule Cons.IH [OF j])
    also have "s' (cols ! j) + count_list (take j cols) (cols ! j) =
               seen ((col # cols) ! i) + count_list (take i (col # cols)) ((col # cols) ! i)"
      unfolding s'_at Suc by simp
    finally show ?thesis using Suc by simp
  qed
qed

lemma deduplicate_columns_nth:
  "i < length cols \<Longrightarrow>
   deduplicate_columns cols ! i =
     spec_dedup_name (count_list (take i cols) (cols ! i)) (cols ! i)"
  by (simp add: deduplicate_columns_def dedup_loop_nth)

text \<open>Names that are already distinct are left as they are.\<close>

lemma deduplicate_columns_distinct_id:
  "distinct cols \<Longrightarrow> deduplicate_columns cols = cols"
proof (rule nth_equalityI)
  show "length (deduplicate_columns cols) = length cols"
    by (rule deduplicate_columns_length)
next
  fix i
  assume d: "distinct cols" and "i < length (deduplicate_columns cols)"
  then have i: "i < length cols"
    by (simp add: deduplicate_columns_length)
  have "cols ! i \<notin> set (take i cols)"
    using d i by (metis distinct_take id_take_nth_drop not_distinct_conv_prefix)
  then have "count_list (take i cols) (cols ! i) = 0"
    by (simp add: count_list_0_iff)
  then show "deduplicate_columns cols ! i = cols ! i"
    using i by (simp add: deduplicate_columns_nth spec_dedup_name_def)
qed

text \<open>
  C9. The claim: the deduplicated names are pairwise distinct, for every list of raw
  names. The code numbers the repeats of a name without looking at the names it has
  already given out: of the raw names \<open>x, x, x_1\<close> the second \<open>x\<close> becomes
  \<open>x_1\<close>, and the raw \<open>x_1\<close>, met for the first time, is kept. The result
  holds \<open>x_1\<close> twice.
\<close>

theorem deduplicate_columns_collision:
  "deduplicate_columns [''x'', ''x'', ''x_1''] = [''x'', ''x_1'', ''x_1''] \<and>
   \<not> distinct (deduplicate_columns [''x'', ''x'', ''x_1''])"
  by (simp add: deduplicate_columns_def dedup_loop.simps str_nat.simps)

text \<open>
  C7, as amended. The labels of the mapping table are deduplicated and nothing else: the
  mapping table has as many labels as the frame read from the file, and the label at
  every position is the raw label, with the suffix \<open>_k\<close> when \<open>k > 0\<close> equal raw
  labels stand before it. No label is blanked or trimmed.
\<close>

theorem mapping_columns_dedup_only:
  assumes "parsed mapping_file = Inr df"
  shows "length (columns (map_df (load_mapping mapping_file s))) = length (columns df) \<and>
         (\<forall>i < length (columns df).
            columns (map_df (load_mapping mapping_file s)) ! i =
              spec_dedup_name (count_list (take i (columns df)) (columns df ! i)) (columns df ! i))"
  using assms
  by (simp add: load_mapping_def deduplicate_columns_length deduplicate_columns_nth)

theorem mapping_columns_dedup_only_witness:
  "columns (map_df (load_mapping
      \<lparr>name = ''map.csv'', size_bytes = 40,
       parsed = Inr \<lparr>columns = ['' Region'', ''Unnamed: 1''], rows = []\<rparr>\<rparr> initial_session)) ! 1
   = ''Unnamed: 1''"
  using mapping_columns_dedup_only
    [of "\<lparr>name = ''map.csv'', size_bytes = 40,
          parsed = Inr \<lparr>columns = ['' Region'', ''Unnamed: 1''], rows = []\<rparr>\<rparr>"
        "\<lparr>columns = ['' Region'', ''Unnamed: 1''], rows = []\<rparr>" initial_session]
  by (simp add: spec_dedup_name_def)

text \<open>
  C7, the claim as stated fails: the mapping header \<open>"", "Unnamed: 0"\<close> is left as
  it is, and does not become \<open>"", "_1"\<close>.
\<close>

theorem mapping_columns_counterexample:
  "columns (map_df (load_mapping
      \<lparr>name = ''map.csv'', size_bytes = 40,
       parsed = Inr \<lparr>columns = ['''', ''Unnamed: 0''], rows = []\<rparr>\<rparr> initial_session))
   = ['''', ''Unnamed: 0''] \<and>
   columns (map_df (load_mapping
      \<lparr>name = ''map.csv'', size_bytes = 40,
       parsed = Inr \<lparr>columns = ['''', ''Unnamed: 0''], rows = []\<rparr>\<rparr> initial_session))
   \<noteq> ['''', ''_1'']"
  by (simp add: load_mapping_def deduplicate_columns_def dedup_loop.simps)

section \<open>Properties of the merge\<close>

lemma prepare_columns: "columns (prepare idx df) = map blank_or_strip (columns df)"
  by (simp add: prepare_def Let_def)

lemma prepare_rows: "rows (prepare idx df) = (if idx > 0 then drop 1 (rows df) else rows df)"
  by (simp add: prepare_def Let_def)

text \<open>The round of the loop for a file that passes the size check and is read.\<close>

lemma merge_step_readable:
  assumes "size_bytes file \<le> 1073741824" and "parsed file = Inr df0"
  shows "merge_step idx file s =
     (if \<not> df_empty (merged_df s) \<and> columns (prepare idx df0) \<noteq> columns (merged_df s) then
        Inr (s\<lparr>messages := messages s @ [SchemaMismatch (name file)]\<rparr>)
      else
        (case pd_concat (merged_df s) (prepare idx df0) of
           Inl e \<Rightarrow> Inl e
         | Inr m \<Rightarrow> Inr (s\<lparr>merged_df := m\<rparr>)))"
  using assms by (simp add: merge_step_def Let_def)

lemma session_msg_neq: "s\<lparr>messages := messages s @ [d]\<rparr> \<noteq> s\<lparr>merged_df := m\<rparr>"
proof
  assume "s\<lparr>messages := messages s @ [d]\<rparr> = s\<lparr>merged_df := m\<rparr>"
  then have "messages (s\<lparr>messages := messages s @ [d]\<rparr>) = messages (s\<lparr>merged_df := m\<rparr>)"
    by simp
  then show False by simp
qed

lemma table_eqI: "columns a = columns b \<Longrightarrow> rows a = rows b \<Longrightarrow> a = (b::table)"
  by simp

lemma pd_concat_empty_frame: "pd_concat empty_frame b = Inr b"
  by (simp add: pd_concat_def empty_frame_def)

lemma pd_concat_same_columns:
  "columns a = columns b \<Longrightarrow>
   pd_concat a b = Inr \<lparr>columns = columns b, rows = rows a @ rows b\<rparr>"
  by (auto simp: pd_concat_def intro: table_eqI)

text \<open>
  A table that meets the empty initial frame, or an accumulator with its own labels, is
  accepted: its rows, without the first one when the file is not at position 0, are put
  after the accumulator's.
\<close>

lemma merge_step_accept:
  assumes "size_bytes file \<le> 1073741824" and "parsed file = Inr df0"
    and "merged_df s = empty_frame \<or> columns (merged_df s) = map blank_or_strip (columns df0)"
  shows "merge_step idx file s =
           Inr (s\<lparr>merged_df :=
                  \<lparr>columns = map blank_or_strip (columns df0),
                   rows = rows (merged_df s) @ (if idx > 0 then drop 1 (rows df0) else rows df0)\<rparr>\<rparr>)"
proof -
  let ?df = "prepare idx df0"
  have c: "pd_concat (merged_df s) ?df =
           Inr \<lparr>columns = columns ?df, rows = rows (merged_df s) @ rows ?df\<rparr>"
    using assms(3)
  proof
    assume e: "merged_df s = empty_frame"
    have "?df = \<lparr>columns = columns ?df, rows = rows empty_frame @ rows ?df\<rparr>"
      by (rule table_eqI) (simp_all add: empty_frame_def)
    then show ?thesis unfolding e pd_concat_empty_frame by simp
  next
    assume "columns (merged_df s) = map blank_or_strip (columns df0)"
    then have "columns (merged_df s) = columns ?df" by (simp add: prepare_columns)
    then show ?thesis by (rule pd_concat_same_columns)
  qed
  have n: "(\<not> df_empty (merged_df s) \<and> columns ?df \<noteq> columns (merged_df s)) = False"
    using assms(3) by (auto simp: prepare_columns df_empty_def empty_frame_def)
  show ?thesis
    unfolding merge_step_readable [OF assms(1,2)] n c
    by (simp add: prepare_columns prepare_rows)
qed

text \<open>
  C1, as amended. Two files within the size limit are read as the tables \<open>A\<close> and
  \<open>B\<close>, and \<open>A\<close> is not empty (it has a column and a row). If the labels of
  \<open>A\<close> and \<open>B\<close> are the same after the blanking and trimming of line 78 and
  \<open>B\<close> is not empty, the merge of the two has the labels of \<open>A\<close> and the rows
  of \<open>A\<close> followed by those of \<open>B\<close> without its first row:
  \<open>len(A) + len(B) - 1\<close> rows, and no message. If the labels differ, the merge is
  \<open>A\<close> alone, and the one message is the schema mismatch of \<open>B\<close>.
\<close>

theorem merge_two_tables:
  assumes "size_bytes fa \<le> 1073741824" and "size_bytes fb \<le> 1073741824"
    and "parsed fa = Inr A" and "parsed fb = Inr B"
    and "\<not> df_empty A"
  shows "(map blank_or_strip (columns A) = map blank_or_strip (columns B) \<and> \<not> df_empty B \<longrightarrow>
            merge_files [fa, fb] =
              Inr (initial_session\<lparr>merged_df :=
                     \<lparr>columns = map blank_or_strip (columns A), rows = rows A @ drop 1 (rows B)\<rparr>\<rparr>) \<and>
            length (rows A @ drop 1 (rows B)) = length (rows A) + length (rows B) - 1)
       \<and> (map blank_or_strip (columns A) \<noteq> map blank_or_strip (columns B) \<longrightarrow>
            merge_files [fa, fb] =
              Inr (initial_session\<lparr>merged_df :=
                     \<lparr>columns = map blank_or_strip (columns A), rows = rows A\<rparr>,
                   messages := [SchemaMismatch (name fb)]\<rparr>))"
proof -
  let ?A' = "\<lparr>columns = map blank_or_strip (columns A), rows = rows A\<rparr>"
  let ?s1 = "initial_session\<lparr>merged_df := ?A'\<rparr>"
  have first: "merge_step 0 fa initial_session = Inr ?s1"
    using merge_step_accept [OF assms(1) assms(3), of initial_session 0]
    by (simp add: initial_session_def empty_frame_def)
  have A'_nonempty: "\<not> df_empty (merged_df ?s1)"
    using assms(5) by (simp add: df_empty_def)
  have same: "merge_files [fa, fb] =
        Inr (initial_session\<lparr>merged_df :=
               \<lparr>columns = map blank_or_strip (columns A), rows = rows A @ drop 1 (rows B)\<rparr>\<rparr>)"
    if "map blank_or_strip (columns A) = map blank_or_strip (columns B)"
  proof -
    have "merge_step 1 fb ?s1 =
          Inr (?s1\<lparr>merged_df :=
                 \<lparr>columns = map blank_or_strip (columns B),
                  rows = rows (merged_df ?s1) @
                         (if (1::nat) > 0 then drop 1 (rows B) else rows B)\<rparr>\<rparr>)"
      by (rule merge_step_accept [OF assms(2) assms(4)]) (simp add: that)
    then show ?thesis
      by (simp add: merge_files_def first that)
  qed
  have differ: "merge_files [fa, fb] = Inr (?s1\<lparr>messages := [SchemaMismatch (name fb)]\<rparr>)"
    if "map blank_or_strip (columns A) \<noteq> map blank_or_strip (columns B)"
  proof -
    have "messages initial_session = []"
      by (simp add: initial_session_def)
    then have "merge_step 1 fb ?s1 = Inr (?s1\<lparr>messages := [SchemaMismatch (name fb)]\<rparr>)"
      using that A'_nonempty
      by (simp add: merge_step_readable [OF assms(2) assms(4)] prepare_columns)
    then show ?thesis
      by (simp add: merge_files_def first)
  qed
  have count: "length (rows A @ drop 1 (rows B)) = length (rows A) + length (rows B) - 1"
    if "\<not> df_empty B"
    using that by (cases "rows B") (simp_all add: df_empty_def)
  show ?thesis
    using same differ count by simp
qed

theorem merge_two_tables_witness:
  "merge_files
     [\<lparr>name = ''a.csv'', size_bytes = 50,
       parsed = Inr \<lparr>columns = [''id'', '' name''], rows = [[Text ''1'', Text ''Ann'']]\<rparr>\<rparr>,
      \<lparr>name = ''b.csv'', size_bytes = 60,
       parsed = Inr \<lparr>columns = [''id'', ''name''],
                     rows = [[Text ''id'', Text ''name''], [Text ''2'', Text ''Bo'']]\<rparr>\<rparr>]
   = Inr (initial_session\<lparr>merged_df :=
            \<lparr>columns = [''id'', ''name''],
             rows = [[Text ''1'', Text ''Ann''], [Text ''2'', Text ''Bo'']]\<rparr>\<rparr>)"
  using merge_two_tables
    [of "\<lparr>name = ''a.csv'', size_bytes = 50,
          parsed = Inr \<lparr>columns = [''id'', '' name''], rows = [[Text ''1'', Text ''Ann'']]\<rparr>\<rparr>"
        "\<lparr>name = ''b.csv'', size_bytes = 60,
          parsed = Inr \<lparr>columns = [''id'', ''name''],
                        rows = [[Text ''id'', Text ''name''], [Text ''2'', Text ''Bo'']]\<rparr>\<rparr>"
        "\<lparr>columns = [''id'', '' name''], rows = [[Text ''1'', Text ''Ann'']]\<rparr>"
        "\<lparr>columns = [''id'', ''name''],
          rows = [[Text ''id'', Text ''name''], [Text ''2'', Text ''Bo'']]\<rparr>"]
  by (simp add: df_empty_def blank_or_strip_def strip_def is_space_def)

text \<open>
  C1, the claim as stated fails: \<open>A\<close> has the label \<open>a\<close> and no row,
  \<open>B\<close> has the label \<open>b\<close> and two rows. The labels differ, yet \<open>B\<close> is
  not rejected: no message is issued, and the merge is not \<open>A\<close> alone, it has both
  labels and the second row of \<open>B\<close>.
\<close>

theorem merge_two_tables_counterexample:
  "merge_files
     [\<lparr>name = ''a.csv'', size_bytes = 10, parsed = Inr \<lparr>columns = [''a''], rows = []\<rparr>\<rparr>,
      \<lparr>name = ''b.csv'', size_bytes = 20,
       parsed = Inr \<lparr>columns = [''b''], rows = [[Text ''b''], [Text ''1'']]\<rparr>\<rparr>]
   = Inr (initial_session\<lparr>merged_df :=
            \<lparr>columns = [''a'', ''b''], rows = [[Missing, Text ''1'']]\<rparr>\<rparr>)"
  by (simp add: merge_files_def merge_step_def initial_session_def prepare_def df_empty_def
      empty_frame_def pd_concat_def reindex_row_def cell_at_def blank_or_strip_def strip_def
      is_space_def)

text \<open>
  C2, as amended. For a file within the size limit that is read, at any position and with
  any accumulator: the round rejects the table (it adds the schema mismatch message for
  the file and leaves the accumulator as it is) exactly when the accumulator is not empty
  in pandas' sense (it has a column and a row) and the table's labels, blanked and
  trimmed, are not the accumulator's labels. After a rejection the loop goes on with the
  remaining files. An accumulator without rows rejects nothing: the round ends without a
  new message, or in the exception of \<^verbatim>\<open>pd.concat\<close>.
\<close>

theorem schema_rejection_rule:
  assumes "size_bytes file \<le> 1073741824" and "parsed file = Inr df0"
  shows "((merge_step idx file s = Inr (s\<lparr>messages := messages s @ [SchemaMismatch (name file)]\<rparr>))
           = (\<not> df_empty (merged_df s) \<and> map blank_or_strip (columns df0) \<noteq> columns (merged_df s)))
       \<and> (\<not> df_empty (merged_df s) \<and> map blank_or_strip (columns df0) \<noteq> columns (merged_df s) \<longrightarrow>
            merge_loop idx (file # files) s =
              merge_loop (Suc idx) files (s\<lparr>messages := messages s @ [SchemaMismatch (name file)]\<rparr>))
       \<and> (rows (merged_df s) = [] \<longrightarrow>
            (\<exists>s'. merge_step idx file s = Inr s' \<and> messages s' = messages s) \<or>
            merge_step idx file s = Inl InvalidIndexError)"
proof (intro conjI impI)
  show "(merge_step idx file s = Inr (s\<lparr>messages := messages s @ [SchemaMismatch (name file)]\<rparr>))
           = (\<not> df_empty (merged_df s) \<and> map blank_or_strip (columns df0) \<noteq> columns (merged_df s))"
    unfolding merge_step_readable [OF assms] prepare_columns
    by (auto split: sum.splits simp: session_msg_neq [symmetric])
  show "merge_loop idx (file # files) s =
           merge_loop (Suc idx) files (s\<lparr>messages := messages s @ [SchemaMismatch (name file)]\<rparr>)"
    if "\<not> df_empty (merged_df s) \<and> map blank_or_strip (columns df0) \<noteq> columns (merged_df s)"
    using that by (simp add: merge_step_readable [OF assms] prepare_columns)
  show "(\<exists>s'. merge_step idx file s = Inr s' \<and> messages s' = messages s) \<or>
            merge_step idx file s = Inl InvalidIndexError"
    if "rows (merged_df s) = []"
    using that unfolding merge_step_readable [OF assms]
    by (auto simp: df_empty_def pd_concat_def Let_def split: sum.splits)
qed

theorem schema_rejection_rule_witness:
  "merge_step 1
     \<lparr>name = ''b.csv'', size_bytes = 100,
      parsed = Inr \<lparr>columns = [''id'', ''city''],
                    rows = [[Text ''id'', Text ''city''], [Text ''7'', Text ''Oslo'']]\<rparr>\<rparr>
     (initial_session\<lparr>merged_df := \<lparr>columns = [''id'', ''name''], rows = [[Text ''1'', Text ''Ann'']]\<rparr>\<rparr>)
   = Inr (initial_session\<lparr>merged_df := \<lparr>columns = [''id'', ''name''], rows = [[Text ''1'', Text ''Ann'']]\<rparr>,
                           messages := [SchemaMismatch ''b.csv'']\<rparr>)"
  using schema_rejection_rule
    [of "\<lparr>name = ''b.csv'', size_bytes = 100,
          parsed = Inr \<lparr>columns = [''id'', ''city''],
                        rows = [[Text ''id'', Text ''city''], [Text ''7'', Text ''Oslo'']]\<rparr>\<rparr>"
        "\<lparr>columns = [''id'', ''city''],
          rows = [[Text ''id'', Text ''city''], [Text ''7'', Text ''Oslo'']]\<rparr>"
        1 "initial_session\<lparr>merged_df := \<lparr>columns = [''id'', ''name''], rows = [[Text ''1'', Text ''Ann'']]\<rparr>\<rparr>"]
  by (simp add: initial_session_def df_empty_def blank_or_strip_def strip_def is_space_def)

text \<open>
  C2, the claim as stated fails: the first file has a header and no row, so the
  accumulator has the labels \<open>id, name\<close> and no row when the second file comes with
  the labels \<open>id, city\<close>. The second table is not rejected: there is no message, and
  its row is in the result, under the labels of both files.
\<close>

theorem schema_rejection_counterexample:
  "merge_files
     [\<lparr>name = ''a.csv'', size_bytes = 20, parsed = Inr \<lparr>columns = [''id'', ''name''], rows = []\<rparr>\<rparr>,
      \<lparr>name = ''b.csv'', size_bytes = 100,
       parsed = Inr \<lparr>columns = [''id'', ''city''],
                     rows = [[Text ''id'', Text ''city''], [Text ''7'', Text ''Oslo'']]\<rparr>\<rparr>]
   = Inr (initial_session\<lparr>merged_df :=
            \<lparr>columns = [''id'', ''name'', ''city''],
             rows = [[Text ''7'', Missing, Text ''Oslo'']]\<rparr>\<rparr>)"
  by (simp add: merge_files_def merge_step_def initial_session_def prepare_def df_empty_def
      empty_frame_def pd_concat_def reindex_row_def cell_at_def blank_or_strip_def strip_def
      is_space_def)




text \<open>
  C10. The claim: every file over 1 GiB, the mapping file too, is rejected before it is
  parsed. The merge loop does so for the uploaded files. The mapping file is read with no
  look at its size: a mapping file of 1073741825 bytes becomes the mapping table, and no
  message is issued; the same file in the upload list is rejected.
\<close>

theorem oversized_mapping_file_accepted:
  "load_mapping
     \<lparr>name = ''map.csv'', size_bytes = 1073741825,
      parsed = Inr \<lparr>columns = [''ID'', ''Name''], rows = [[Text ''A1'', Text ''Bob'']]\<rparr>\<rparr>
     initial_session
   = initial_session\<lparr>map_df := \<lparr>columns = [''ID'', ''Name''], rows = [[Text ''A1'', Text ''Bob'']]\<rparr>\<rparr>
   \<and> merge_files
     [\<lparr>name = ''map.csv'', size_bytes = 1073741825,
       parsed = Inr \<lparr>columns = [''ID'', ''Name''], rows = [[Text ''A1'', Text ''Bob'']]\<rparr>\<rparr>]
   = Inr (initial_session\<lparr>messages := [FileTooLarge ''map.csv'']\<rparr>)"
  by (simp add: load_mapping_def deduplicate_columns_def dedup_loop.simps merge_files_def
      merge_step_def initial_session_def)

section \<open>Properties of the lookup\<close>

subsection \<open>Row counts\<close>

lemma normalize_key_column_rows:
  "normalize_key_column key df = Inr t \<Longrightarrow> length (rows t) = length (rows df)"
  by (auto simp: normalize_key_column_def split: if_splits)

lemma normalize_key_column_columns:
  "normalize_key_column key df = Inr t \<Longrightarrow> columns t = columns df"
  by (auto simp: normalize_key_column_def split: if_splits)

lemma length_concat_map_ge:
  "(\<And>x. x \<in> set xs \<Longrightarrow> f x \<noteq> []) \<Longrightarrow> length xs \<le> length (concat (map f xs))"
proof (induction xs)
  case Nil
  show ?case by simp
next
  case (Cons x xs)
  have "f x \<noteq> []" by (rule Cons.prems) simp
  then have "1 \<le> length (f x)" by (cases "f x") simp_all
  moreover have "length xs \<le> length (concat (map f xs))"
    by (rule Cons.IH) (simp add: Cons.prems)
  ultimately show ?case by simp
qed

lemma pd_merge_left_rows:
  assumes "pd_merge_left left right left_on right_on = Inr m"
  shows "length (rows left) \<le> length (rows m)"
proof -
  define right' where "right' = (if left_on = right_on then drop_column right right_on else right)"
  define pairs where
    "pairs = zip (map (\<lambda>m. cell_at (columns right) m right_on) (rows right)) (rows right')"
  define f where "f = (\<lambda>l. case filter (\<lambda>(k, m). k = cell_at (columns left) l left_on) pairs of
                           [] \<Rightarrow> [l @ replicate (length (columns right')) Missing]
                         | ms \<Rightarrow> map (\<lambda>(k, m). l @ m) ms)"
  define res where
    "res = \<lparr>columns = suffix_labels (columns left) (columns right') ''_x'' @
                     suffix_labels (columns right') (columns left) ''_y'',
            rows = concat (map f (rows left))\<rparr>"
  define dup where
    "dup = (suffix_causes_duplicates (columns left)
              (suffix_labels (columns left) (columns right') ''_x'') \<or>
            suffix_causes_duplicates (columns right')
              (suffix_labels (columns right') (columns left) ''_y''))"
  have unfold: "pd_merge_left left right left_on right_on =
     (if right_on \<notin> set (columns right) then Inl (KeyError right_on)
      else if count_list (columns right) right_on > 1 then Inl ValueError
      else if left_on \<notin> set (columns left) then Inl (KeyError left_on)
      else if count_list (columns left) left_on > 1 then Inl ValueError
      else if dup then Inl MergeError else Inr res)"
    unfolding pd_merge_left_def Let_def res_def f_def pairs_def right'_def dup_def ..
  have "m = res"
    using assms unfolding unfold by (simp split: if_splits)
  then have m: "rows m = concat (map f (rows left))"
    by (simp add: res_def)
  have f: "f l \<noteq> []" for l
    unfolding f_def by (simp split: list.splits)
  show ?thesis unfolding m by (rule length_concat_map_ge) (rule f)
qed

lemma fillna_column_rows: "length (rows (fillna_column df c)) = length (rows df)"
  by (simp add: fillna_column_def)

lemma set_column_rows: "length (rows (set_column df c f)) = length (rows df)"
  by (simp add: set_column_def)

lemma lookup_map_rows:
  "length (rows (fst (lookup_map merged mapping kt km v))) = length (rows merged)"
  by (simp add: lookup_map_def Let_def set_column_rows)

lemma lookup_merge_rows:
  "length (rows merged) \<le> length (rows (fst (lookup_merge merged mapping kt km v)))"
  by (auto simp: lookup_merge_def Let_def fillna_column_rows split: sum.splits dest: pd_merge_left_rows)

lemma lookup_round_map_rows:
  "length (rows (merged_df (lookup_round Method_map kt km v s))) = length (rows (merged_df s))"
  using lookup_map_rows [of "merged_df s" "map_df s" kt km v]
  by (auto simp: lookup_round_def split: prod.splits option.splits)

lemma lookup_round_merge_rows:
  "length (rows (merged_df s)) \<le> length (rows (merged_df (lookup_round Method_merge kt km v s)))"
  using lookup_merge_rows [of "merged_df s" "map_df s" kt km v]
  by (auto simp: lookup_round_def split: prod.splits option.splits)

lemma lookup_loop_map_rows:
  "length (rows (merged_df (lookup_loop Method_map kt km vs s))) = length (rows (merged_df s))"
  by (induction vs arbitrary: s) (simp_all add: lookup_round_map_rows)

lemma lookup_loop_merge_rows:
  "length (rows (merged_df s)) \<le> length (rows (merged_df (lookup_loop Method_merge kt km vs s)))"
proof (induction vs arbitrary: s)
  case Nil
  show ?case by simp
next
  case (Cons v vs)
  have "length (rows (merged_df s)) \<le> length (rows (merged_df (lookup_round Method_merge kt km v s)))"
    by (rule lookup_round_merge_rows)
  also have "\<dots> \<le> length (rows (merged_df (lookup_loop Method_merge kt km vs (lookup_round Method_merge kt km v s))))"
    by (rule Cons.IH)
  finally show ?case by simp
qed

lemma drop_column_rows: "length (rows (drop_column df c)) = length (rows df)"
  by (simp add: drop_column_def)

lemma move_to_front_rows:
  "move_to_front col df = Inr t \<Longrightarrow> length (rows t) = length (rows df)"
  "move_to_front col df = Inl (e, t) \<Longrightarrow> length (rows t) = length (rows df)"
  by (auto simp: move_to_front_def Let_def drop_column_rows split: if_splits)

lemma reorder_columns_rows:
  "reorder_columns cols df = Inr t \<Longrightarrow> length (rows t) = length (rows df)"
  "reorder_columns cols df = Inl (e, t) \<Longrightarrow> length (rows t) = length (rows df)"
  by (induction cols arbitrary: df) (auto split: sum.splits dest: move_to_front_rows)

lemma perform_lookup_rows:
  assumes "\<And>s0. length (rows (merged_df (lookup_loop method kt km vs s0))) = length (rows (merged_df s0))"
  shows "length (rows (merged_df (perform_lookup kt km vs method s))) = length (rows (merged_df s))"
  by (auto simp: perform_lookup_def Let_def assms split: sum.splits prod.splits
      dest!: normalize_key_column_rows reorder_columns_rows)

subsection \<open>Cells and labels\<close>

lemma cell_at_nth_cell:
  "c \<in> set cols \<Longrightarrow> cell_at cols r c = nth_cell r (index_of cols c)"
proof (induction cols arbitrary: r)
  case Nil
  then show ?case by simp
next
  case (Cons x xs)
  show ?case
  proof (cases r)
    case Nil
    then show ?thesis by (simp add: cell_at_def nth_cell_def)
  next
    case (Cons y ys)
    show ?thesis
    proof (cases "x = c")
      case True
      then show ?thesis using Cons by (simp add: cell_at_def nth_cell_def)
    next
      case False
      with Cons.prems have "c \<in> set xs" by simp
      from Cons.IH [OF this, of ys] show ?thesis
        using False Cons by (simp add: cell_at_def nth_cell_def)
    qed
  qed
qed

lemma index_of_less: "c \<in> set cols \<Longrightarrow> index_of cols c < length cols"
  by (induction cols) auto

lemma nth_index_of: "c \<in> set cols \<Longrightarrow> cols ! index_of cols c = c"
  by (induction cols) auto

lemma label_positions_absent: "c \<notin> set cols \<Longrightarrow> label_positions cols c = []"
  by (induction cols) auto

lemma label_positions_unique:
  "count_list cols c = 1 \<Longrightarrow> label_positions cols c = [index_of cols c]"
proof (induction cols)
  case Nil
  then show ?case by simp
next
  case (Cons x xs)
  show ?case
  proof (cases "x = c")
    case True
    with Cons.prems have "count_list xs c = 0" by simp
    then have "c \<notin> set xs" by (simp add: count_list_0_iff)
    then show ?thesis using True by (simp add: label_positions_absent)
  next
    case False
    with Cons.prems have "count_list xs c = 1" by simp
    from Cons.IH [OF this] show ?thesis using False by simp
  qed
qed

lemma count_list_distinct: "distinct cols \<Longrightarrow> c \<in> set cols \<Longrightarrow> count_list cols c = 1"
  by (induction cols) (auto simp: count_list_0_iff)

lemma count_list_1_mem: "count_list cols c = 1 \<Longrightarrow> c \<in> set cols"
  by (metis count_list_0_iff zero_neq_one)

text \<open>cell_at under appended columns\<close>

lemma map_of_zip_append:
  assumes "length r = length cols"
  shows "map_of (zip (cols @ cs) (r @ xs)) k =
           (if k \<in> set cols then map_of (zip cols r) k else map_of (zip cs xs) k)"
proof -
  have z: "zip (cols @ cs) (r @ xs) = zip cols r @ zip cs xs"
    using assms by simp
  have d: "dom (map_of (zip cols r)) = set cols"
    using assms by simp
  show ?thesis
    unfolding z map_of_append using d
    by (auto simp: map_add_dom_app_simps simp del: dom_map_of_zip)
qed

lemma cell_at_append_left:
  assumes "length r = length cols" and "k \<in> set cols"
  shows "cell_at (cols @ cs) (r @ xs) k = cell_at cols r k"
  unfolding cell_at_def map_of_zip_append [OF assms(1)] using assms(2) by simp

lemma cell_at_append_right:
  assumes "length r = length cols" and "k \<notin> set cols"
  shows "cell_at (cols @ cs) (r @ xs) k = cell_at cs xs k"
  unfolding cell_at_def map_of_zip_append [OF assms(1)] using assms(2) by simp

lemma map_of_zip_map:
  "map_of (zip cols (map (\<lambda>(l, v). h l v) (zip cols r))) k = map_option (h k) (map_of (zip cols r) k)"
proof (induction cols arbitrary: r)
  case Nil
  show ?case by simp
next
  case (Cons x xs)
  show ?case by (cases r) (simp_all add: Cons.IH)
qed

lemma map_of_zip_rename:
  "(\<And>c. c \<in> set cols \<Longrightarrow> (ren c = k) = (c = k)) \<Longrightarrow>
   map_of (zip (map ren cols) r) k = map_of (zip cols r) k"
proof (induction cols arbitrary: r)
  case Nil
  show ?case by simp
next
  case (Cons x xs)
  show ?case
  proof (cases r)
    case Nil
    then show ?thesis by simp
  next
    case (Cons y ys)
    have ih: "map_of (zip (map ren xs) ys) k = map_of (zip xs ys) k"
      by (rule Cons.IH) (simp add: Cons.prems)
    have x: "(ren x = k) = (x = k)" by (rule Cons.prems) simp
    show ?thesis
    proof (cases "x = k")
      case True
      with x have "ren x = k" by simp
      then show ?thesis using True Cons by simp
    next
      case False
      with x have "ren x \<noteq> k" by simp
      then show ?thesis using False Cons ih by simp
    qed
  qed
qed

lemma map_of_zip_remove_nth:
  "i < length cols \<Longrightarrow> cols ! i \<noteq> k \<Longrightarrow>
   map_of (zip (take i cols @ drop (Suc i) cols) (take i r @ drop (Suc i) r)) k =
   map_of (zip cols r) k"
proof (induction i arbitrary: cols r)
  case 0
  then show ?case by (cases cols; cases r) simp_all
next
  case (Suc i)
  then show ?case by (cases cols; cases r) simp_all
qed

lemma remove_unique:
  "count_list cols c = 1 \<Longrightarrow>
   take (index_of cols c) cols @ drop (Suc (index_of cols c)) cols = filter (\<lambda>x. x \<noteq> c) cols"
proof (induction cols)
  case Nil
  then show ?case by simp
next
  case (Cons x xs)
  show ?case
  proof (cases "x = c")
    case True
    with Cons.prems have "count_list xs c = 0" by simp
    then have "c \<notin> set xs" by (simp add: count_list_0_iff)
    then have "filter (\<lambda>x. x \<noteq> c) xs = xs" by (induction xs) auto
    then show ?thesis using True by simp
  next
    case False
    with Cons.prems have "count_list xs c = 1" by simp
    from Cons.IH [OF this] show ?thesis using False by simp
  qed
qed

subsection \<open>The map branch\<close>

lemma new_col_name_inj: "new_col_name v = new_col_name w \<Longrightarrow> v = w"
  by (simp add: new_col_name_def)

lemma dict_get_absent: "k \<notin> set ks \<Longrightarrow> dict_get (zip ks vs) k = None"
  by (auto simp: dict_get_def map_of_eq_None_iff dest: set_zip_leftD)

lemma lookup_map_ok:
  assumes "count_list (columns mapping) kM = 1" and "v \<in> set (columns mapping)"
    and "count_list (columns merged) kT = 1" and "new_col_name v \<notin> set (columns merged)"
  shows "\<exists>f. lookup_map merged mapping kT kM v =
               (\<lparr>columns = columns merged @ [new_col_name v],
                 rows = map (\<lambda>r. r @ [f r]) (rows merged)\<rparr>, None) \<and>
             (\<forall>r. key_absent mapping kM (cell_at (columns merged) r kT) \<longrightarrow>
                  f r = Text ''Not Matched'')"
proof -
  define lookup_dict where
    "lookup_dict = zip (iter_column mapping kM) (iter_column mapping v)"
  define f where "f = (\<lambda>r. case dict_get lookup_dict (cell_at (columns merged) r kT) of
                       None \<Rightarrow> Text ''Not Matched''
                     | Some Missing \<Rightarrow> Text ''Not Matched''
                     | Some (Text x) \<Rightarrow> Text x)"
  have kM: "kM \<in> set (columns mapping)" using assms(1) by (rule count_list_1_mem)
  have kT: "kT \<in> set (columns merged)" using assms(3) by (rule count_list_1_mem)
  have "lookup_map merged mapping kT kM v =
        (set_column merged (new_col_name v) f, None)"
    using kM kT assms(2,3) by (simp add: lookup_map_def f_def lookup_dict_def)
  moreover have "set_column merged (new_col_name v) f =
        \<lparr>columns = columns merged @ [new_col_name v], rows = map (\<lambda>r. r @ [f r]) (rows merged)\<rparr>"
    using assms(4) by (simp add: set_column_def)
  moreover have "f r = Text ''Not Matched''"
    if "key_absent mapping kM (cell_at (columns merged) r kT)" for r
  proof -
    have "iter_column mapping kM = map (\<lambda>m. cell_at (columns mapping) m kM) (rows mapping)"
      using assms(1) by (simp add: iter_column_def)
    with that have "cell_at (columns merged) r kT \<notin> set (iter_column mapping kM)"
      by (simp add: key_absent_def)
    then have "dict_get lookup_dict (cell_at (columns merged) r kT) = None"
      unfolding lookup_dict_def by (rule dict_get_absent)
    then show ?thesis by (simp add: f_def)
  qed
  ultimately show ?thesis by auto
qed

lemma rectangularD: "rectangular df \<Longrightarrow> r \<in> set (rows df) \<Longrightarrow> length r = length (columns df)"
  by (simp add: rectangular_def)

lemma count_list_append1:
  "count_list (xs @ [y]) c = count_list xs c + (if y = c then 1 else 0)"
  by (induction xs) auto

lemma lookup_round_map_inv:
  assumes inv: "lookup_inv kT kM cT (v # vs) s"
    and M: "count_list (columns (map_df s)) kM = 1" "v \<in> set (columns (map_df s))"
    and d: "v \<notin> set vs" and nk: "new_col_name v \<noteq> kM"
  shows "lookup_inv kT kM cT vs (lookup_round Method_map kT kM v s) \<and>
         mapped_columns (lookup_round Method_map kT kM v s) = mapped_columns s @ [new_col_name v] \<and>
         messages (lookup_round Method_map kT kM v s) = messages s \<and>
         map_df (lookup_round Method_map kT kM v s) = map_df s \<and>
         absent_keys kT kM (lookup_round Method_map kT kM v s) = absent_keys kT kM s \<and>
         columns (merged_df (lookup_round Method_map kT kM v s)) = columns (merged_df s) @ [new_col_name v]"
proof -
  let ?df = "merged_df s"
  let ?cols = "columns ?df"
  let ?new = "new_col_name v"
  from inv have rect: "rectangular ?df"
    and kT1: "count_list ?cols kT = 1"
    and pre: "\<exists>ext. ?cols = cT @ ext"
    and dm: "distinct (mapped_columns s)"
    and mc: "\<And>c. c \<in> set (mapped_columns s) \<Longrightarrow>
               count_list ?cols c = 1 \<and> c \<noteq> kM \<and> (\<exists>v. c = new_col_name v)"
    and rest: "\<And>w. w \<in> set (v # vs) \<Longrightarrow> new_col_name w \<notin> set ?cols"
    and sent: "\<And>r c. r \<in> set (rows ?df) \<Longrightarrow> key_absent (map_df s) kM (cell_at ?cols r kT) \<Longrightarrow>
               c \<in> set (mapped_columns s) \<Longrightarrow> cell_at ?cols r c = Text ''Not Matched''"
    by (auto simp: lookup_inv_def)
  have new: "?new \<notin> set ?cols" by (rule rest) simp
  have kT: "kT \<in> set ?cols" using kT1 by (rule count_list_1_mem)
  from lookup_map_ok [OF M kT1 new] obtain f where
    lm: "lookup_map ?df (map_df s) kT kM v =
           (\<lparr>columns = ?cols @ [?new], rows = map (\<lambda>r. r @ [f r]) (rows ?df)\<rparr>, None)"
    and f: "\<And>r. key_absent (map_df s) kM (cell_at ?cols r kT) \<Longrightarrow> f r = Text ''Not Matched''"
    by blast
  let ?s' = "lookup_round Method_map kT kM v s"
  have s': "?s' = s\<lparr>merged_df := \<lparr>columns = ?cols @ [?new], rows = map (\<lambda>r. r @ [f r]) (rows ?df)\<rparr>,
                    mapped_columns := mapped_columns s @ [?new]\<rparr>"
    by (simp add: lookup_round_def lm)
  have cols': "columns (merged_df ?s') = ?cols @ [?new]" by (simp add: s')
  have rows': "rows (merged_df ?s') = map (\<lambda>r. r @ [f r]) (rows ?df)" by (simp add: s')
  have mapped': "mapped_columns ?s' = mapped_columns s @ [?new]" by (simp add: s')
  have mdf': "map_df ?s' = map_df s" by (simp add: s')
  have len: "length r = length ?cols" if "r \<in> set (rows ?df)" for r
    using rect that by (rule rectangularD)
  have old_cell: "cell_at (?cols @ [?new]) (r @ [f r]) k = cell_at ?cols r k"
    if "r \<in> set (rows ?df)" "k \<in> set ?cols" for r k
    using len [OF that(1)] that(2) by (rule cell_at_append_left)
  have new_cell: "cell_at (?cols @ [?new]) (r @ [f r]) ?new = f r"
    if "r \<in> set (rows ?df)" for r
    using cell_at_append_right [OF len [OF that] new, of "[?new]" "[f r]"]
    by (simp add: cell_at_def)
  have mapped_in: "c \<in> set ?cols" if "c \<in> set (mapped_columns s)" for c
    using mc [OF that] by (auto intro: count_list_1_mem)
  have new_not_mapped: "?new \<notin> set (mapped_columns s)"
    using mapped_in new by blast
  have i1: "rectangular (merged_df ?s')"
    unfolding rectangular_def cols' rows' using len by auto
  have i2: "count_list (columns (merged_df ?s')) kT = 1"
    unfolding cols' count_list_append1 using kT1 kT new by auto
  have i3: "\<exists>ext. columns (merged_df ?s') = cT @ ext"
    unfolding cols' using pre by auto
  have i4: "distinct (mapped_columns ?s')"
    unfolding mapped' using dm new_not_mapped by simp
  have i5: "count_list (columns (merged_df ?s')) c = 1 \<and> c \<noteq> kM \<and> (\<exists>v. c = new_col_name v)"
    if "c \<in> set (mapped_columns ?s')" for c
  proof (cases "c = ?new")
    case True
    have "count_list ?cols ?new = 0" using new by (simp add: count_list_0_iff)
    moreover note nk
    ultimately show ?thesis unfolding cols' count_list_append1 True by auto
  next
    case False
    with that have c: "c \<in> set (mapped_columns s)" by (simp add: mapped')
    show ?thesis unfolding cols' count_list_append1 using mc [OF c] False by auto
  qed
  have i6: "new_col_name w \<notin> set (columns (merged_df ?s'))" if "w \<in> set vs" for w
  proof -
    have "new_col_name w \<notin> set ?cols" by (rule rest) (simp add: that)
    moreover have "w \<noteq> v" using that d by auto
    then have "new_col_name w \<noteq> ?new" by (auto dest: new_col_name_inj)
    ultimately show ?thesis unfolding cols' by simp
  qed
  have key': "cell_at (columns (merged_df ?s')) (r @ [f r]) kT = cell_at ?cols r kT"
    if "r \<in> set (rows ?df)" for r
    unfolding cols' using that kT by (rule old_cell)
  have i7: "cell_at (columns (merged_df ?s')) r' c = Text ''Not Matched''"
    if r': "r' \<in> set (rows (merged_df ?s'))"
      and ab: "key_absent (map_df ?s') kM (cell_at (columns (merged_df ?s')) r' kT)"
      and c: "c \<in> set (mapped_columns ?s')" for r' c
  proof -
    from r' obtain r where r: "r \<in> set (rows ?df)" and r'_eq: "r' = r @ [f r]"
      unfolding rows' by auto
    have ab0: "key_absent (map_df s) kM (cell_at ?cols r kT)"
      using ab unfolding r'_eq key' [OF r] mdf' .
    show ?thesis
    proof (cases "c = ?new")
      case True
      show ?thesis unfolding True r'_eq cols' new_cell [OF r] using ab0 by (rule f)
    next
      case False
      with c have c0: "c \<in> set (mapped_columns s)" by (simp add: mapped')
      have "cell_at (?cols @ [?new]) (r @ [f r]) c = cell_at ?cols r c"
        using r mapped_in [OF c0] by (rule old_cell)
      also have "\<dots> = Text ''Not Matched''" using r ab0 c0 by (rule sent)
      finally show ?thesis unfolding r'_eq cols' .
    qed
  qed
  have keys: "map (\<lambda>r. cell_at (columns (merged_df ?s')) r kT) (rows (merged_df ?s')) =
              map (\<lambda>r. cell_at ?cols r kT) (rows ?df)"
    unfolding rows' using key' by (simp add: comp_def)
  have i8: "absent_keys kT kM ?s' = absent_keys kT kM s"
    unfolding absent_keys_def keys mdf' ..
  have "lookup_inv kT kM cT vs ?s'"
    unfolding lookup_inv_def using i1 i2 i3 i4 i5 i6 i7 by blast
  moreover have "messages ?s' = messages s" by (simp add: s')
  ultimately show ?thesis using mapped' mdf' i8 cols' by blast
qed

subsection \<open>The shape of the merge\<close>

lemma mapped_name_not_x: "new_col_name v \<noteq> k @ ''_x''"
proof
  assume "new_col_name v = k @ ''_x''"
  then have "last (v @ ''_mapped'') = last (k @ ''_x'')" by (simp add: new_col_name_def)
  then show False by simp
qed

lemma mapped_name_not_y: "new_col_name v \<noteq> k @ ''_y''"
proof
  assume "new_col_name v = k @ ''_y''"
  then have "last (v @ ''_mapped'') = last (k @ ''_y'')" by (simp add: new_col_name_def)
  then show False by simp
qed

lemma select_key_value:
  assumes "count_list (columns M) kM = 1" and "count_list (columns M) v = 1"
  shows "select_columns M [kM, v] =
         Inr \<lparr>columns = [kM, v],
              rows = map (\<lambda>m. [cell_at (columns M) m kM, cell_at (columns M) m v]) (rows M)\<rparr>"
proof -
  have kM: "kM \<in> set (columns M)" and v: "v \<in> set (columns M)"
    using assms by (auto intro: count_list_1_mem)
  have idxs: "concat (map (label_positions (columns M)) [kM, v]) =
              [index_of (columns M) kM, index_of (columns M) v]"
    by (simp add: label_positions_unique assms)
  have "filter (\<lambda>l. l \<notin> set (columns M)) [kM, v] = []"
    using kM v by simp
  then show ?thesis
    unfolding select_columns_def idxs Let_def
    by (simp add: nth_index_of kM v cell_at_nth_cell)
qed

lemma zip_map_same: "zip (map f xs) (map g xs) = map (\<lambda>x. (f x, g x)) xs"
  by (induction xs) simp_all

lemma join_case:
  "(case filter (\<lambda>(k, m). k = key) (zip (map K ms) (map P ms)) of
      [] \<Rightarrow> a
    | x # xs \<Rightarrow> map (\<lambda>(k, m). l @ m) (x # xs)) =
   (if filter (\<lambda>m. K m = key) ms = [] then a
    else map (\<lambda>m. l @ P m) (filter (\<lambda>m. K m = key) ms))"
proof -
  have "filter (\<lambda>(k, m). k = key) (zip (map K ms) (map P ms)) =
        map (\<lambda>m. (K m, P m)) (filter (\<lambda>m. K m = key) ms)"
    unfolding zip_map_same by (induction ms) simp_all
  then show ?thesis
    by (cases "filter (\<lambda>m. K m = key) ms") simp_all
qed

lemma suffix_causes_duplicates_same: "\<not> suffix_causes_duplicates xs xs"
  by (simp add: suffix_causes_duplicates_def list_ex_iff)

lemma pd_merge_left_shape:
  assumes temp: "temp = \<lparr>columns = [kM, new], rows = map (\<lambda>m. [K m, W m]) ms\<rparr>"
    and nk: "new \<noteq> kM"
    and kT1: "count_list (columns df) kT = 1"
  defines "rc \<equiv> (if kT = kM then [new] else [kM, new])"
  defines "J \<equiv> (\<lambda>l. if filter (\<lambda>m. K m = cell_at (columns df) l kT) ms = []
                     then [l @ replicate (length rc) Missing]
                     else map (\<lambda>m. l @ (if kT = kM then [W m] else [K m, W m]))
                            (filter (\<lambda>m. K m = cell_at (columns df) l kT) ms))"
  shows "pd_merge_left df temp kT kM =
           (if suffix_causes_duplicates (columns df) (suffix_labels (columns df) rc ''_x'') \<or>
               suffix_causes_duplicates rc (suffix_labels rc (columns df) ''_y'')
            then Inl MergeError
            else Inr \<lparr>columns = suffix_labels (columns df) rc ''_x'' @ suffix_labels rc (columns df) ''_y'',
                      rows = concat (map J (rows df))\<rparr>)"
proof -
  have kT: "kT \<in> set (columns df)" using kT1 by (rule count_list_1_mem)
  have keys: "map (\<lambda>m. cell_at (columns temp) m kM) (rows temp) = map K ms"
    by (simp add: temp cell_at_def comp_def)
  let ?right' = "if kT = kM then drop_column temp kM else temp"
  have rc: "columns ?right' = rc"
    using nk by (simp add: temp drop_column_def rc_def)
  have rrows: "rows ?right' = map (\<lambda>m. if kT = kM then [W m] else [K m, W m]) ms"
    using nk by (simp add: temp drop_column_def)
  have J: "(\<lambda>l. case filter (\<lambda>(k, m). k = cell_at (columns df) l kT)
                      (zip (map K ms) (map (\<lambda>m. if kT = kM then [W m] else [K m, W m]) ms)) of
                 [] \<Rightarrow> [l @ replicate (length rc) Missing]
               | x # xs \<Rightarrow> map (\<lambda>(k, m). l @ m) (x # xs)) = J"
    unfolding J_def join_case ..
  have checks: "kM \<in> set (columns temp)" "\<not> count_list (columns temp) kM > 1"
    using nk by (simp_all add: temp)
  show ?thesis
    unfolding pd_merge_left_def Let_def keys rc rrows J
    using checks kT kT1 by simp
qed

subsection \<open>Filling and keys\<close>

lemma count_list_map_stable:
  "(\<And>c. c \<in> set cols \<Longrightarrow> (ren c = k) = (c = k)) \<Longrightarrow>
   count_list (map ren cols) k = count_list cols k"
  by (induction cols) auto

lemma cell_at_rename:
  "(\<And>c. c \<in> set cols \<Longrightarrow> (ren c = k) = (c = k)) \<Longrightarrow>
   cell_at (map ren cols) r k = cell_at cols r k"
  by (simp add: cell_at_def map_of_zip_rename)

lemma cell_at_replicate_Missing: "cell_at cs (replicate n Missing) k = Missing"
  by (auto simp: cell_at_def split: option.splits dest!: map_of_SomeD set_zip_rightD)

lemma cell_at_fill_other:
  "k \<noteq> c \<Longrightarrow>
   cell_at cols (map (\<lambda>(l, v). if l = c \<and> v = Missing then Text ''Not Matched'' else v) (zip cols r)) k =
   cell_at cols r k"
  unfolding cell_at_def
  using map_of_zip_map [of cols "\<lambda>l v. if l = c \<and> v = Missing then Text ''Not Matched'' else v" r k]
  by (auto split: option.splits)

lemma cell_at_fill_same:
  assumes "c \<in> set cols" and "length r = length cols" and "cell_at cols r c = Missing"
  shows "cell_at cols (map (\<lambda>(l, v). if l = c \<and> v = Missing then Text ''Not Matched'' else v) (zip cols r)) c =
         Text ''Not Matched''"
proof -
  have "c \<in> dom (map_of (zip cols r))"
    using assms(1,2) by simp
  then obtain x where x: "map_of (zip cols r) c = Some x" by auto
  with assms(3) have "x = Missing" by (simp add: cell_at_def)
  with x show ?thesis
    unfolding cell_at_def
    using map_of_zip_map [of cols "\<lambda>l v. if l = c \<and> v = Missing then Text ''Not Matched'' else v" r c]
    by simp
qed

lemma filter_concat_keys:
  assumes "\<And>l r'. l \<in> set ls \<Longrightarrow> r' \<in> set (G l) \<Longrightarrow> key' r' = key l"
    and "\<And>l. l \<in> set ls \<Longrightarrow> P (key l) \<Longrightarrow> length (G l) = 1"
  shows "filter P (map key' (concat (map G ls))) = filter P (map key ls)"
  using assms
proof (induction ls)
  case Nil
  show ?case by simp
next
  case (Cons l ls)
  have same: "map key' (G l) = replicate (length (G l)) (key l)"
    by (rule nth_equalityI) (simp_all add: Cons.prems(1))
  have "filter P (map key' (G l)) = (if P (key l) then [key l] else [])"
  proof (cases "P (key l)")
    case True
    then have "length (G l) = 1" by (simp add: Cons.prems(2))
    then show ?thesis unfolding same using True by simp
  next
    case False
    then show ?thesis unfolding same by simp
  qed
  moreover have "filter P (map key' (concat (map G ls))) = filter P (map key ls)"
    by (rule Cons.IH) (simp_all add: Cons.prems)
  ultimately show ?case by simp
qed

subsection \<open>The merge branch\<close>

lemma lookup_inv_rest:
  "lookup_inv kT kM cT (v # vs) s \<Longrightarrow> merged_df s' = merged_df s \<Longrightarrow>
   mapped_columns s' = mapped_columns s \<Longrightarrow> map_df s' = map_df s \<Longrightarrow>
   lookup_inv kT kM cT vs s'"
  by (simp add: lookup_inv_def)

lemma lookup_round_merge_inv:
  assumes inv: "lookup_inv kT kM cT (v # vs) s"
    and M: "count_list (columns (map_df s)) kM = 1" "count_list (columns (map_df s)) v = 1" "v \<noteq> kM"
    and d: "v \<notin> set vs" and nk: "new_col_name v \<noteq> kM"
    and nks: "\<And>w. w \<in> set vs \<Longrightarrow> new_col_name w \<noteq> kM"
    and h: "kT \<noteq> kM \<Longrightarrow> kM \<notin> set cT \<and> kT \<noteq> kM @ ''_x'' \<and> kT \<noteq> kM @ ''_y''"
  shows "lookup_inv kT kM cT vs (lookup_round Method_merge kT kM v s) \<and>
         map_df (lookup_round Method_merge kT kM v s) = map_df s \<and>
         absent_keys kT kM (lookup_round Method_merge kT kM v s) = absent_keys kT kM s \<and>
         (mapped_columns (lookup_round Method_merge kT kM v s) = mapped_columns s \<or>
          mapped_columns (lookup_round Method_merge kT kM v s) = mapped_columns s @ [new_col_name v]) \<and>
         (kT = kM \<or> columns (merged_df s) = cT \<longrightarrow>
            mapped_columns (lookup_round Method_merge kT kM v s) = mapped_columns s @ [new_col_name v] \<and>
            messages (lookup_round Method_merge kT kM v s) = messages s) \<and>
         (kT = kM \<longrightarrow>
            columns (merged_df (lookup_round Method_merge kT kM v s)) =
              columns (merged_df s) @ [new_col_name v])"
proof -
  let ?df = "merged_df s"
  let ?cols = "columns ?df"
  let ?new = "new_col_name v"
  let ?M = "map_df s"
  let ?s' = "lookup_round Method_merge kT kM v s"
  let ?NM = "Text ''Not Matched''"
  from inv have rect: "rectangular ?df"
    and kT1: "count_list ?cols kT = 1"
    and pre: "\<exists>ext. ?cols = cT @ ext"
    and dm: "distinct (mapped_columns s)"
    and mc: "\<And>c. c \<in> set (mapped_columns s) \<Longrightarrow>
               count_list ?cols c = 1 \<and> c \<noteq> kM \<and> (\<exists>v. c = new_col_name v)"
    and rest: "\<And>w. w \<in> set (v # vs) \<Longrightarrow> new_col_name w \<notin> set ?cols"
    and sent: "\<And>r c. r \<in> set (rows ?df) \<Longrightarrow> key_absent ?M kM (cell_at ?cols r kT) \<Longrightarrow>
               c \<in> set (mapped_columns s) \<Longrightarrow> cell_at ?cols r c = ?NM"
    by (auto simp: lookup_inv_def)
  have new: "?new \<notin> set ?cols" by (rule rest) simp
  have kT: "kT \<in> set ?cols" using kT1 by (rule count_list_1_mem)
  have kT_new: "kT \<noteq> ?new" using kT new by auto
  define K where "K = (\<lambda>m. cell_at (columns ?M) m kM)"
  define W where "W = (\<lambda>m. cell_at (columns ?M) m v)"
  define temp where "temp = \<lparr>columns = [kM, ?new], rows = map (\<lambda>m. [K m, W m]) (rows ?M)\<rparr>"
  define rc where "rc = (if kT = kM then [?new] else [kM, ?new])"
  define J where "J = (\<lambda>l. if filter (\<lambda>m. K m = cell_at ?cols l kT) (rows ?M) = []
                     then [l @ replicate (length rc) Missing]
                     else map (\<lambda>m. l @ (if kT = kM then [W m] else [K m, W m]))
                            (filter (\<lambda>m. K m = cell_at ?cols l kT) (rows ?M)))"
  define L where "L = suffix_labels ?cols rc ''_x''"
  define R where "R = suffix_labels rc ?cols ''_y''"
  define dup where "dup = (suffix_causes_duplicates ?cols L \<or> suffix_causes_duplicates rc R)"
  define fill where
    "fill = (\<lambda>r. map (\<lambda>(l, x). if l = ?new \<and> x = Missing then ?NM else x) (zip (L @ R) r))"
  have sel: "select_columns ?M [kM, v] =
         Inr \<lparr>columns = [kM, v], rows = map (\<lambda>m. [K m, W m]) (rows ?M)\<rparr>"
    unfolding K_def W_def using M(1,2) by (rule select_key_value)
  have ren: "rename_column v ?new \<lparr>columns = [kM, v], rows = map (\<lambda>m. [K m, W m]) (rows ?M)\<rparr> = temp"
    using M(3) by (simp add: rename_column_def temp_def)
  have merge: "pd_merge_left ?df temp kT kM =
           (if dup then Inl MergeError
            else Inr \<lparr>columns = L @ R, rows = concat (map J (rows ?df))\<rparr>)"
    unfolding dup_def L_def R_def J_def rc_def
    by (rule pd_merge_left_shape [OF temp_def nk kT1])
  have new_R: "?new \<in> set R"
    using new by (auto simp: R_def rc_def suffix_labels_def)
  have lm: "lookup_merge ?df ?M kT kM v =
           (if dup then (?df, Some MergeError)
            else (\<lparr>columns = L @ R, rows = map fill (concat (map J (rows ?df)))\<rparr>, None))"
    using new_R by (simp add: lookup_merge_def sel ren merge fillna_column_def fill_def)
  text \<open>which labels get a suffix\<close>
  have rc_set: "set rc = (if kT = kM then {?new} else {kM, ?new})"
    by (simp add: rc_def)
  have renamed: "c = kM \<and> kT \<noteq> kM" if "c \<in> set ?cols" "c \<in> set rc" for c
    using that new by (auto simp: rc_set split: if_splits)
  have L_map: "L = map (\<lambda>c. if c \<in> set rc then c @ ''_x'' else c) ?cols"
    by (simp add: L_def suffix_labels_def)
  have stable: "((if c \<in> set rc then c @ ''_x'' else c) = k) = (c = k)"
    if "c \<in> set ?cols" "k \<notin> set rc" "k \<noteq> kM @ ''_x''" for c k
    using renamed [OF that(1)] that(2,3) by auto
  have kT_rc: "kT \<notin> set rc" using kT_new by (auto simp: rc_set)
  have kT_x: "kT \<noteq> kM @ ''_x''" using h by (cases "kT = kM") auto
  have kT_y: "kT \<noteq> kM @ ''_y''" using h by (cases "kT = kM") auto
  have mapped_in: "c \<in> set ?cols" if "c \<in> set (mapped_columns s)" for c
    using mc [OF that] by (auto intro: count_list_1_mem)
  have new_not_mapped: "?new \<notin> set (mapped_columns s)"
    using mapped_in new by blast
  have m_rc: "c \<notin> set rc" if "c \<in> set (mapped_columns s)" for c
    using mc [OF that] mapped_in [OF that] new by (auto simp: rc_set)
  have m_x: "c \<noteq> kM @ ''_x''" if "c \<in> set (mapped_columns s)" for c
    using mc [OF that] by (auto simp: mapped_name_not_x)
  have m_y: "c \<noteq> kM @ ''_y''" if "c \<in> set (mapped_columns s)" for c
    using mc [OF that] by (auto simp: mapped_name_not_y)
  have R_set: "set R \<subseteq> {kM, kM @ ''_y'', ?new}" "kT = kM \<Longrightarrow> R = [?new]"
    using new by (auto simp: R_def rc_def suffix_labels_def)
  have R_len: "length R = length rc" by (simp add: R_def suffix_labels_def)
  have L_len: "length L = length ?cols" by (simp add: L_def suffix_labels_def)
  have L_elem: "c \<in> set ?cols \<or> c = kM @ ''_x''" if "c \<in> set L" for c
    using that renamed unfolding L_map by auto
  have new_L: "?new \<notin> set L"
    using L_elem new mapped_name_not_x by blast
  have count_new: "count_list (L @ R) ?new = 1"
  proof -
    have "count_list L ?new = 0" using new_L by (simp add: count_list_0_iff)
    moreover have "count_list R ?new = 1"
      using new nk mapped_name_not_y [of v kM]
      by (auto simp: R_def rc_def suffix_labels_def)
    ultimately show ?thesis by simp
  qed
  have kT_R: "kT \<notin> set R"
    using R_set kT_new kT_y by (cases "kT = kM") auto
  have m_R: "c \<notin> set R" if "c \<in> set (mapped_columns s)" for c
    using R_set(1) mc [OF that] m_y [OF that] new_not_mapped that by auto
  have count_stable: "count_list (L @ R) k = count_list ?cols k"
    if "k \<notin> set rc" "k \<noteq> kM @ ''_x''" "k \<notin> set R" for k
  proof -
    have "count_list L k = count_list ?cols k"
      unfolding L_map by (rule count_list_map_stable) (rule stable [OF _ that(1,2)])
    moreover have "count_list R k = 0" using that(3) by (simp add: count_list_0_iff)
    ultimately show ?thesis by simp
  qed
  have cell_stable: "cell_at (L @ R) (l @ x) k = cell_at ?cols l k"
    if "l \<in> set (rows ?df)" "k \<in> set ?cols" "k \<notin> set rc" "k \<noteq> kM @ ''_x''" for l x k
  proof -
    have len: "length l = length L"
      using rect that(1) by (simp add: rectangularD L_len)
    have "k \<in> set L" using that(2,3) unfolding L_map by force
    with len have "cell_at (L @ R) (l @ x) k = cell_at L l k" by (rule cell_at_append_left)
    also have "\<dots> = cell_at ?cols l k"
      unfolding L_map by (rule cell_at_rename) (rule stable [OF _ that(3,4)])
    finally show ?thesis .
  qed
  text \<open>the rows of the merge\<close>
  have absent_iff: "key_absent ?M kM k = (filter (\<lambda>m. K m = k) (rows ?M) = [])" for k
    by (auto simp: key_absent_def K_def filter_empty_conv)
  have J_rows: "\<exists>x. r' = l @ x \<and> length x = length rc \<and>
                    (key_absent ?M kM (cell_at ?cols l kT) \<longrightarrow> x = replicate (length rc) Missing)"
    if "r' \<in> set (J l)" for r' l
    using that unfolding J_def absent_iff by (auto simp: rc_def split: if_splits)
  have J_single: "length (J l) = 1" if "key_absent ?M kM (cell_at ?cols l kT)" for l
    using that unfolding J_def absent_iff by simp
  have fill_len: "length (fill (l @ x)) = length (L @ R)"
    if "l \<in> set (rows ?df)" "length x = length rc" for l x
    using rect that by (simp add: fill_def rectangularD L_len R_len)
  have fill_other: "cell_at (L @ R) (fill r) k = cell_at (L @ R) r k" if "k \<noteq> ?new" for r k
    unfolding fill_def using that by (rule cell_at_fill_other)
  have fill_key: "cell_at (L @ R) (fill (l @ x)) kT = cell_at ?cols l kT"
    if "l \<in> set (rows ?df)" for l x
    unfolding fill_other [OF kT_new] using that kT kT_rc kT_x by (rule cell_stable)
  have fill_mapped: "cell_at (L @ R) (fill (l @ x)) c = cell_at ?cols l c"
    if "l \<in> set (rows ?df)" "c \<in> set (mapped_columns s)" for l x c
  proof -
    have "c \<noteq> ?new" using that(2) new_not_mapped by auto
    then show ?thesis
      unfolding fill_other [of c, OF \<open>c \<noteq> ?new\<close>]
      using that(1) mapped_in [OF that(2)] m_rc [OF that(2)] m_x [OF that(2)]
      by (intro cell_stable)
  qed
  have fill_new: "cell_at (L @ R) (fill (l @ replicate (length rc) Missing)) ?new = ?NM"
    if "l \<in> set (rows ?df)" for l
  proof -
    have len: "length l = length L"
      using rect that by (simp add: rectangularD L_len)
    have "cell_at (L @ R) (l @ replicate (length rc) Missing) ?new =
          cell_at R (replicate (length rc) Missing) ?new"
      using len new_L by (rule cell_at_append_right)
    then have miss: "cell_at (L @ R) (l @ replicate (length rc) Missing) ?new = Missing"
      by (simp add: cell_at_replicate_Missing)
    have "?new \<in> set (L @ R)" using new_R by simp
    moreover have "length (l @ replicate (length rc) Missing) = length (L @ R)"
      using len R_len by simp
    ultimately show ?thesis
      unfolding fill_def using miss by (rule cell_at_fill_same)
  qed
  text \<open>the two outcomes\<close>
  show ?thesis
  proof (cases dup)
    case True
    then have s': "?s' = s\<lparr>merged_df := ?df, messages := messages s @ [MappingFailed v MergeError]\<rparr>"
      by (simp add: lookup_round_def lm)
    have "lookup_inv kT kM cT vs ?s'"
      using inv by (rule lookup_inv_rest) (simp_all add: s')
    moreover have "absent_keys kT kM ?s' = absent_keys kT kM s"
      by (simp add: absent_keys_def s')
    moreover have "kT \<noteq> kM \<and> ?cols \<noteq> cT"
    proof -
      have no_ren: "\<not> dup" if "\<And>c. c \<in> set ?cols \<Longrightarrow> c \<notin> set rc"
      proof -
        have "L = ?cols" unfolding L_map using that by (simp add: map_idI)
        moreover have "R = rc"
          unfolding R_def suffix_labels_def by (rule map_idI) (use that in auto)
        ultimately show ?thesis by (simp add: dup_def suffix_causes_duplicates_same)
      qed
      have "kT \<noteq> kM"
      proof
        assume "kT = kM"
        then have "c \<notin> set rc" if "c \<in> set ?cols" for c
          using that new by (auto simp: rc_set)
        then have "\<not> dup" by (rule no_ren)
        with True show False by simp
      qed
      moreover have "?cols \<noteq> cT"
      proof
        assume e: "?cols = cT"
        have "c \<notin> set rc" if "c \<in> set ?cols" for c
          using renamed [OF that] h that e by auto
        then have "\<not> dup" by (rule no_ren)
        with True show False by simp
      qed
      ultimately show ?thesis by simp
    qed
    ultimately show ?thesis by (simp add: s')
  next
    case False
    let ?rows' = "map fill (concat (map J (rows ?df)))"
    have s': "?s' = s\<lparr>merged_df := \<lparr>columns = L @ R, rows = ?rows'\<rparr>,
                      mapped_columns := mapped_columns s @ [?new]\<rparr>"
      using False by (simp add: lookup_round_def lm)
    have cols': "columns (merged_df ?s') = L @ R" by (simp add: s')
    have rows': "rows (merged_df ?s') = ?rows'" by (simp add: s')
    have mapped': "mapped_columns ?s' = mapped_columns s @ [?new]" by (simp add: s')
    have mdf': "map_df ?s' = map_df s" by (simp add: s')
    have row_cases: "\<exists>l x. l \<in> set (rows ?df) \<and> r = fill (l @ x) \<and> length x = length rc \<and>
                    (key_absent ?M kM (cell_at ?cols l kT) \<longrightarrow> x = replicate (length rc) Missing)"
      if "r \<in> set ?rows'" for r
    proof -
      from that obtain l r' where l: "l \<in> set (rows ?df)" and r': "r' \<in> set (J l)"
        and r: "r = fill r'" by auto
      from J_rows [OF r'] r l show ?thesis by blast
    qed
    have i1: "rectangular (merged_df ?s')"
      unfolding rectangular_def cols' rows'
    proof
      fix r assume "r \<in> set ?rows'"
      from row_cases [OF this] obtain l x where "l \<in> set (rows ?df)" "r = fill (l @ x)"
        "length x = length rc" by blast
      then show "length r = length (L @ R)" by (simp add: fill_len)
    qed
    have i2: "count_list (columns (merged_df ?s')) kT = 1"
      unfolding cols' count_stable [OF kT_rc kT_x kT_R] by (rule kT1)
    have i3: "\<exists>ext. columns (merged_df ?s') = cT @ ext"
    proof -
      from pre obtain ext where ext: "?cols = cT @ ext" by blast
      have "c \<notin> set rc" if "c \<in> set cT" for c
      proof
        assume "c \<in> set rc"
        moreover have "c \<in> set ?cols" using that ext by simp
        ultimately have "c = kM \<and> kT \<noteq> kM" by (rule renamed [rotated])
        with h that show False by auto
      qed
      then have "map (\<lambda>c. if c \<in> set rc then c @ ''_x'' else c) cT = cT"
        by (simp add: map_idI)
      then have "L = cT @ map (\<lambda>c. if c \<in> set rc then c @ ''_x'' else c) ext"
        unfolding L_map ext by simp
      then show ?thesis unfolding cols' by simp
    qed
    have i4: "distinct (mapped_columns ?s')"
      unfolding mapped' using dm new_not_mapped by simp
    have i5: "count_list (columns (merged_df ?s')) c = 1 \<and> c \<noteq> kM \<and> (\<exists>v. c = new_col_name v)"
      if "c \<in> set (mapped_columns ?s')" for c
    proof (cases "c = ?new")
      case True
      show ?thesis unfolding True cols' using count_new nk by blast
    next
      case False
      with that have c: "c \<in> set (mapped_columns s)" by (simp add: mapped')
      have "count_list (L @ R) c = count_list ?cols c"
        using m_rc [OF c] m_x [OF c] m_R [OF c] by (rule count_stable)
      then show ?thesis unfolding cols' using mc [OF c] by simp
    qed
    have i6: "new_col_name w \<notin> set (columns (merged_df ?s'))" if "w \<in> set vs" for w
    proof -
      have a: "new_col_name w \<notin> set ?cols" by (rule rest) (simp add: that)
      have "w \<noteq> v" using that d by auto
      then have b: "new_col_name w \<noteq> ?new" by (auto dest: new_col_name_inj)
      have "new_col_name w \<notin> set L"
        using L_elem a mapped_name_not_x by blast
      moreover have "new_col_name w \<notin> set R"
        using R_set(1) b nks [OF that] mapped_name_not_y [of w kM] by auto
      ultimately show ?thesis unfolding cols' by simp
    qed
    have i7: "cell_at (columns (merged_df ?s')) r c = ?NM"
      if r: "r \<in> set (rows (merged_df ?s'))"
        and ab: "key_absent (map_df ?s') kM (cell_at (columns (merged_df ?s')) r kT)"
        and c: "c \<in> set (mapped_columns ?s')" for r c
    proof -
      from r row_cases obtain l x where l: "l \<in> set (rows ?df)" and r_eq: "r = fill (l @ x)"
        and x: "key_absent ?M kM (cell_at ?cols l kT) \<longrightarrow> x = replicate (length rc) Missing"
        unfolding rows' by blast
      have ab0: "key_absent ?M kM (cell_at ?cols l kT)"
        using ab unfolding r_eq cols' mdf' fill_key [OF l] .
      with x have x_eq: "x = replicate (length rc) Missing" by simp
      show ?thesis
      proof (cases "c = ?new")
        case True
        show ?thesis unfolding True cols' r_eq x_eq using l by (rule fill_new)
      next
        case False
        with c have c0: "c \<in> set (mapped_columns s)" by (simp add: mapped')
        have "cell_at (L @ R) (fill (l @ x)) c = cell_at ?cols l c"
          using l c0 by (rule fill_mapped)
        also have "\<dots> = ?NM" using l ab0 c0 by (rule sent)
        finally show ?thesis unfolding cols' r_eq .
      qed
    qed
    have i8: "absent_keys kT kM ?s' = absent_keys kT kM s"
    proof -
      have "?rows' = concat (map (\<lambda>l. map fill (J l)) (rows ?df))"
        by (simp add: map_concat comp_def)
      moreover have "filter (key_absent ?M kM)
              (map (\<lambda>r. cell_at (L @ R) r kT) (concat (map (\<lambda>l. map fill (J l)) (rows ?df)))) =
            filter (key_absent ?M kM) (map (\<lambda>l. cell_at ?cols l kT) (rows ?df))"
      proof (rule filter_concat_keys)
        fix l r' assume l: "l \<in> set (rows ?df)" and "r' \<in> set (map fill (J l))"
        then obtain r0 where "r0 \<in> set (J l)" "r' = fill r0" by auto
        with J_rows [of r0 l] obtain x where "r' = fill (l @ x)" by blast
        then show "cell_at (L @ R) r' kT = cell_at ?cols l kT"
          using fill_key [OF l] by simp
      next
        fix l assume "l \<in> set (rows ?df)" and "key_absent ?M kM (cell_at ?cols l kT)"
        then show "length (map fill (J l)) = 1" by (simp add: J_single)
      qed
      ultimately show ?thesis
        unfolding absent_keys_def cols' rows' mdf' by simp
    qed
    have i9: "columns (merged_df ?s') = ?cols @ [?new]" if "kT = kM"
    proof -
      have "c \<notin> set rc" if "c \<in> set ?cols" for c
        using renamed [OF that] \<open>kT = kM\<close> by auto
      then have "L = ?cols" unfolding L_map by (simp add: map_idI)
      then show ?thesis unfolding cols' using R_set(2) [OF that] by simp
    qed
    have "lookup_inv kT kM cT vs ?s'"
      unfolding lookup_inv_def using i1 i2 i3 i4 i5 i6 i7 by blast
    moreover have "messages ?s' = messages s" by (simp add: s')
    ultimately show ?thesis using mapped' mdf' i8 i9 by blast
  qed
qed

subsection \<open>The loop\<close>

lemma lookup_round_inv:
  assumes inv: "lookup_inv kT kM cT (v # vs) s"
    and M: "distinct (columns (map_df s))" "kM \<in> set (columns (map_df s))"
      "v \<in> set (columns (map_df s))" "v \<noteq> kM"
    and d: "v \<notin> set vs" and nk: "new_col_name v \<noteq> kM"
    and nks: "\<And>w. w \<in> set vs \<Longrightarrow> new_col_name w \<noteq> kM"
    and h: "method = Method_merge \<and> kT \<noteq> kM \<longrightarrow>
            kM \<notin> set cT \<and> kT \<noteq> kM @ ''_x'' \<and> kT \<noteq> kM @ ''_y''"
  shows "lookup_inv kT kM cT vs (lookup_round method kT kM v s) \<and>
         map_df (lookup_round method kT kM v s) = map_df s \<and>
         absent_keys kT kM (lookup_round method kT kM v s) = absent_keys kT kM s \<and>
         (mapped_columns (lookup_round method kT kM v s) = mapped_columns s \<or>
          mapped_columns (lookup_round method kT kM v s) = mapped_columns s @ [new_col_name v]) \<and>
         (method = Method_map \<or> kT = kM \<or> columns (merged_df s) = cT \<longrightarrow>
            mapped_columns (lookup_round method kT kM v s) = mapped_columns s @ [new_col_name v] \<and>
            messages (lookup_round method kT kM v s) = messages s) \<and>
         (method = Method_map \<or> kT = kM \<longrightarrow>
            columns (merged_df (lookup_round method kT kM v s)) =
              columns (merged_df s) @ [new_col_name v])"
proof (cases "method")
  case Method_map
  have kM1: "count_list (columns (map_df s)) kM = 1"
    using M(1,2) by (rule count_list_distinct)
  show ?thesis
    unfolding Method_map
    using lookup_round_map_inv [OF inv kM1 M(3) d nk] by simp
next
  case Method_merge
  have kM1: "count_list (columns (map_df s)) kM = 1"
    using M(1,2) by (rule count_list_distinct)
  have v1: "count_list (columns (map_df s)) v = 1"
    using M(1,3) by (rule count_list_distinct)
  have h': "kM \<notin> set cT \<and> kT \<noteq> kM @ ''_x'' \<and> kT \<noteq> kM @ ''_y''" if "kT \<noteq> kM"
    using h that Method_merge by simp
  show ?thesis
    unfolding Method_merge
    using lookup_round_merge_inv [OF inv kM1 v1 M(4) d nk nks h'] by simp
qed

lemma lookup_loop_inv:
  assumes "lookup_inv kT kM cT vs s"
    and "distinct (columns (map_df s))" and "kM \<in> set (columns (map_df s))"
    and "set vs \<subseteq> set (columns (map_df s))" and "kM \<notin> set vs"
    and "distinct vs"
    and "\<And>w. w \<in> set vs \<Longrightarrow> new_col_name w \<noteq> kM"
    and "method = Method_merge \<and> kT \<noteq> kM \<longrightarrow>
            kM \<notin> set cT \<and> kT \<noteq> kM @ ''_x'' \<and> kT \<noteq> kM @ ''_y''"
  shows "lookup_inv kT kM cT [] (lookup_loop method kT kM vs s) \<and>
         map_df (lookup_loop method kT kM vs s) = map_df s \<and>
         absent_keys kT kM (lookup_loop method kT kM vs s) = absent_keys kT kM s \<and>
         (\<exists>P. mapped_columns (lookup_loop method kT kM vs s) =
                 mapped_columns s @ map new_col_name (filter P vs) \<and>
              (vs \<noteq> [] \<and> columns (merged_df s) = cT \<longrightarrow> P (hd vs)) \<and>
              (method = Method_map \<or> kT = kM \<longrightarrow> (\<forall>v \<in> set vs. P v))) \<and>
         (method = Method_map \<or> kT = kM \<longrightarrow>
            messages (lookup_loop method kT kM vs s) = messages s \<and>
            columns (merged_df (lookup_loop method kT kM vs s)) =
              columns (merged_df s) @ map new_col_name vs)"
  using assms
proof (induction vs arbitrary: s)
  case Nil
  show ?case
    using Nil.prems(1) by (auto intro: exI [of _ "\<lambda>_. True"])
next
  case (Cons v vs)
  let ?s1 = "lookup_round method kT kM v s"
  let ?sf = "lookup_loop method kT kM vs ?s1"
  have v: "v \<in> set (columns (map_df s))" "v \<noteq> kM" "v \<notin> set vs" "new_col_name v \<noteq> kM"
    using Cons.prems by auto
  have nks: "new_col_name w \<noteq> kM" if "w \<in> set vs" for w
    using Cons.prems(7) [of w] that by simp
  note round = lookup_round_inv [OF Cons.prems(1) Cons.prems(2,3) v(1,2,3,4) nks Cons.prems(8)]
  from round have inv1: "lookup_inv kT kM cT vs ?s1" and m1: "map_df ?s1 = map_df s"
    and k1: "absent_keys kT kM ?s1 = absent_keys kT kM s"
    and mc1: "mapped_columns ?s1 = mapped_columns s \<or>
              mapped_columns ?s1 = mapped_columns s @ [new_col_name v]"
    and ok1: "method = Method_map \<or> kT = kM \<or> columns (merged_df s) = cT \<Longrightarrow>
              mapped_columns ?s1 = mapped_columns s @ [new_col_name v] \<and> messages ?s1 = messages s"
    and c1: "method = Method_map \<or> kT = kM \<Longrightarrow>
              columns (merged_df ?s1) = columns (merged_df s) @ [new_col_name v]"
    by blast+
  have ih: "lookup_inv kT kM cT [] ?sf \<and>
         map_df ?sf = map_df ?s1 \<and>
         absent_keys kT kM ?sf = absent_keys kT kM ?s1 \<and>
         (\<exists>P. mapped_columns ?sf = mapped_columns ?s1 @ map new_col_name (filter P vs) \<and>
              (vs \<noteq> [] \<and> columns (merged_df ?s1) = cT \<longrightarrow> P (hd vs)) \<and>
              (method = Method_map \<or> kT = kM \<longrightarrow> (\<forall>v \<in> set vs. P v))) \<and>
         (method = Method_map \<or> kT = kM \<longrightarrow>
            messages ?sf = messages ?s1 \<and>
            columns (merged_df ?sf) = columns (merged_df ?s1) @ map new_col_name vs)"
  proof (rule Cons.IH [OF inv1])
    show "distinct (columns (map_df ?s1))" "kM \<in> set (columns (map_df ?s1))"
      "set vs \<subseteq> set (columns (map_df ?s1))" "kM \<notin> set vs" "distinct vs"
      using Cons.prems unfolding m1 by auto
    show "new_col_name w \<noteq> kM" if "w \<in> set vs" for w using that by (rule nks)
    show "method = Method_merge \<and> kT \<noteq> kM \<longrightarrow>
            kM \<notin> set cT \<and> kT \<noteq> kM @ ''_x'' \<and> kT \<noteq> kM @ ''_y''"
      by (rule Cons.prems(8))
  qed
  then obtain P' where P': "mapped_columns ?sf = mapped_columns ?s1 @ map new_col_name (filter P' vs)"
    and P'all: "method = Method_map \<or> kT = kM \<Longrightarrow> \<forall>v \<in> set vs. P' v"
    by blast
  define ok where "ok = (mapped_columns ?s1 = mapped_columns s @ [new_col_name v])"
  define P where "P = P'(v := ok)"
  have filt: "filter P vs = filter P' vs"
  proof (rule filter_cong)
    show "vs = vs" ..
    fix w assume "w \<in> set vs"
    with v(3) have "w \<noteq> v" by auto
    then show "P w = P' w" by (simp add: P_def)
  qed
  have "mapped_columns ?s1 = mapped_columns s @ (if ok then [new_col_name v] else [])"
    using mc1 by (auto simp: ok_def)
  then have mapped: "mapped_columns ?sf = mapped_columns s @ map new_col_name (filter P (v # vs))"
    unfolding P' filt [symmetric] by (simp add: P_def)
  have first: "P (hd (v # vs))" if "columns (merged_df s) = cT"
    using ok1 that by (simp add: P_def ok_def)
  have all: "\<forall>w \<in> set (v # vs). P w" if "method = Method_map \<or> kT = kM"
    using ok1 P'all that by (auto simp: P_def ok_def)
  have sf: "lookup_loop method kT kM (v # vs) s = ?sf" by simp
  have msgs: "messages ?sf = messages s \<and>
        columns (merged_df ?sf) = columns (merged_df s) @ map new_col_name (v # vs)"
    if "method = Method_map \<or> kT = kM"
    using ih ok1 c1 that by auto
  show ?case
    unfolding sf using ih m1 k1 mapped first all msgs by (intro conjI impI exI [of _ P]) auto
qed

subsection \<open>Normalised keys and the reordering\<close>

text \<open>normalisation of a key column\<close>

lemma normalize_key_column_ok:
  assumes "count_list (columns df) key = 1"
  shows "normalize_key_column key df =
         Inr (df\<lparr>rows := map (\<lambda>r. r[index_of (columns df) key :=
                                       normalize_key (cell_at (columns df) r key)]) (rows df)\<rparr>)"
  using assms count_list_1_mem [OF assms] by (simp add: normalize_key_column_def)

lemma normalized_key_cell:
  assumes "key \<in> set cols" and "length r = length cols"
  shows "cell_at cols (r[index_of cols key := x]) key = x"
proof -
  have "index_of cols key < length r"
    using assms by (simp add: index_of_less)
  then show ?thesis
    using assms(1) by (simp add: cell_at_nth_cell nth_cell_def)
qed

lemma move_to_front_ok:
  assumes c1: "count_list (columns df) c = 1" and rect: "rectangular df"
  shows "\<exists>t g. move_to_front c df = Inr t \<and>
           columns t = c # filter (\<lambda>x. x \<noteq> c) (columns df) \<and>
           rows t = map g (rows df) \<and> rectangular t \<and>
           (\<forall>r \<in> set (rows df). \<forall>k. cell_at (columns t) (g r) k = cell_at (columns df) r k)"
proof -
  let ?cols = "columns df"
  let ?i = "index_of ?cols c"
  define g where "g = (\<lambda>r. nth_cell r ?i # take ?i r @ drop (Suc ?i) r)"
  define t where "t = \<lparr>columns = c # take ?i ?cols @ drop (Suc ?i) ?cols, rows = map g (rows df)\<rparr>"
  have c: "c \<in> set ?cols" using c1 by (rule count_list_1_mem)
  have i: "?i < length ?cols" using c by (rule index_of_less)
  have ci: "?cols ! ?i = c" using c by (rule nth_index_of)
  have mv: "move_to_front c df = Inr t"
    using c c1 by (simp add: move_to_front_def t_def g_def Let_def)
  have cols_t: "columns t = c # filter (\<lambda>x. x \<noteq> c) ?cols"
    by (simp add: t_def remove_unique [OF c1])
  have len_t: "length (columns t) = length ?cols"
    using i by (simp add: t_def)
  have len_g: "length (g r) = length ?cols" if "r \<in> set (rows df)" for r
    using rectangularD [OF rect that] i by (simp add: g_def)
  have rect_t: "rectangular t"
    unfolding rectangular_def len_t using len_g by (simp add: t_def)
  have cell: "cell_at (columns t) (g r) k = cell_at ?cols r k" if "r \<in> set (rows df)" for r k
  proof (cases "k = c")
    case True
    have "cell_at (columns t) (g r) c = nth_cell r ?i"
      by (simp add: t_def g_def cell_at_def)
    then show ?thesis unfolding True using c by (simp add: cell_at_nth_cell)
  next
    case False
    then have "?cols ! ?i \<noteq> k" using ci by simp
    from map_of_zip_remove_nth [OF i this, of r] False
    show ?thesis by (simp add: t_def g_def cell_at_def)
  qed
  show ?thesis using mv cols_t rect_t cell by (intro exI [of _ t] exI [of _ g]) (simp add: t_def)
qed

lemma count_list_filter_neq:
  "k \<noteq> c \<Longrightarrow> count_list (filter (\<lambda>x. x \<noteq> c) xs) k = count_list xs k"
  by (induction xs) auto

lemma reorder_columns_ok:
  assumes "rectangular df" and "distinct cs"
    and "\<And>c. c \<in> set cs \<Longrightarrow> count_list (columns df) c = 1"
  shows "\<exists>t g. reorder_columns cs df = Inr t \<and>
           columns t = rev cs @ filter (\<lambda>x. x \<notin> set cs) (columns df) \<and>
           rows t = map g (rows df) \<and> rectangular t \<and>
           (\<forall>r \<in> set (rows df). \<forall>k. cell_at (columns t) (g r) k = cell_at (columns df) r k)"
  using assms
proof (induction cs arbitrary: df)
  case Nil
  show ?case
    using Nil.prems(1) by (intro exI [of _ df] exI [of _ "\<lambda>r. r"]) simp
next
  case (Cons c cs)
  have c1: "count_list (columns df) c = 1" by (rule Cons.prems(3)) simp
  from move_to_front_ok [OF c1 Cons.prems(1)] obtain t1 g1 where
    mv: "move_to_front c df = Inr t1"
    and cols1: "columns t1 = c # filter (\<lambda>x. x \<noteq> c) (columns df)"
    and rows1: "rows t1 = map g1 (rows df)" and rect1: "rectangular t1"
    and cell1: "\<And>r k. r \<in> set (rows df) \<Longrightarrow> cell_at (columns t1) (g1 r) k = cell_at (columns df) r k"
    by blast
  have c_cs: "c \<notin> set cs" and dcs: "distinct cs" using Cons.prems(2) by auto
  have counts1: "count_list (columns t1) c' = 1" if "c' \<in> set cs" for c'
  proof -
    have "c' \<noteq> c" using that c_cs by auto
    moreover have "count_list (columns df) c' = 1" by (rule Cons.prems(3)) (simp add: that)
    ultimately show ?thesis unfolding cols1 by (simp add: count_list_filter_neq)
  qed
  from Cons.IH [OF rect1 dcs counts1] obtain t g2 where
    re: "reorder_columns cs t1 = Inr t"
    and cols: "columns t = rev cs @ filter (\<lambda>x. x \<notin> set cs) (columns t1)"
    and rws: "rows t = map g2 (rows t1)" and rect: "rectangular t"
    and cell2: "\<And>r k. r \<in> set (rows t1) \<Longrightarrow> cell_at (columns t) (g2 r) k = cell_at (columns t1) r k"
    by blast
  have "reorder_columns (c # cs) df = Inr t" by (simp add: mv re)
  moreover have "columns t = rev (c # cs) @ filter (\<lambda>x. x \<notin> set (c # cs)) (columns df)"
  proof -
    have "filter (\<lambda>x. x \<notin> set cs) (filter (\<lambda>x. x \<noteq> c) (columns df)) =
          filter (\<lambda>x. x \<notin> set (c # cs)) (columns df)"
      by (auto intro: filter_cong)
    then show ?thesis unfolding cols cols1 using c_cs by simp
  qed
  moreover have "rows t = map (g2 \<circ> g1) (rows df)" by (simp add: rws rows1)
  moreover have "cell_at (columns t) ((g2 \<circ> g1) r) k = cell_at (columns df) r k"
    if "r \<in> set (rows df)" for r k
  proof -
    have "g1 r \<in> set (rows t1)" using that by (simp add: rows1)
    then show ?thesis using cell2 cell1 [OF that] by simp
  qed
  ultimately show ?case using rect by blast
qed

subsection \<open>The whole lookup\<close>

lemma perform_lookup_ok:
  assumes ok: "lookup_request_ok kT kM V method s"
  shows "lookup_done (perform_lookup kT kM V method s) \<and>
     map_df (perform_lookup kT kM V method s) =
       (map_df s)\<lparr>rows := map (\<lambda>m. m[index_of (columns (map_df s)) kM :=
                                    normalize_key (cell_at (columns (map_df s)) m kM)])
                            (rows (map_df s))\<rparr> \<and>
     (\<forall>k. key_absent (map_df (perform_lookup kT kM V method s)) kM k =
          (k \<notin> set (map (\<lambda>m. normalize_key (cell_at (columns (map_df s)) m kM)) (rows (map_df s))))) \<and>
     (\<forall>r \<in> set (rows (merged_df (perform_lookup kT kM V method s))).
        key_absent (map_df (perform_lookup kT kM V method s)) kM
          (cell_at (columns (merged_df (perform_lookup kT kM V method s))) r kT) \<longrightarrow>
        (\<forall>c \<in> set (mapped_columns (perform_lookup kT kM V method s)).
           cell_at (columns (merged_df (perform_lookup kT kM V method s))) r c = Text ''Not Matched'')) \<and>
     absent_keys kT kM (perform_lookup kT kM V method s) =
       filter (key_absent (map_df (perform_lookup kT kM V method s)) kM)
         (map (\<lambda>r. normalize_key (cell_at (columns (merged_df s)) r kT)) (rows (merged_df s))) \<and>
     (\<exists>P rest. mapped_columns (perform_lookup kT kM V method s) = map new_col_name (filter P V) \<and>
        (V \<noteq> [] \<longrightarrow> P (hd V)) \<and>
        (method = Method_map \<or> kT = kM \<longrightarrow> (\<forall>v \<in> set V. P v) \<and> rest = []) \<and>
        columns (merged_df (perform_lookup kT kM V method s)) =
          mapped_columns (perform_lookup kT kM V method s) @ columns (merged_df s) @ rest) \<and>
     (method = Method_map \<or> kT = kM \<longrightarrow>
        messages (perform_lookup kT kM V method s) = messages s)"
proof -
  let ?T = "merged_df s" and ?M = "map_df s"
  let ?cT = "columns ?T" and ?cM = "columns ?M"
  let ?s' = "perform_lookup kT kM V method s"
  from ok have ne: "\<not> df_empty ?T" and rT: "rectangular ?T" and rM: "rectangular ?M"
    and kT1: "count_list ?cT kT = 1" and dM: "distinct ?cM" and kM: "kM \<in> set ?cM"
    and dV: "distinct V" and VM: "set V \<subseteq> set ?cM" and kMV: "kM \<notin> set V"
    and newV: "\<And>v. v \<in> set V \<Longrightarrow> new_col_name v \<notin> set ?cT \<and> new_col_name v \<noteq> kM"
    and h: "method = Method_merge \<and> kT \<noteq> kM \<longrightarrow>
            kM \<notin> set ?cT \<and> kT \<noteq> kM @ ''_x'' \<and> kT \<noteq> kM @ ''_y''"
    by (auto simp: lookup_request_ok_def)
  have kT: "kT \<in> set ?cT" using kT1 by (rule count_list_1_mem)
  have kM1: "count_list ?cM kM = 1" using dM kM by (rule count_list_distinct)
  define nT where "nT = (\<lambda>r. r[index_of ?cT kT := normalize_key (cell_at ?cT r kT)])"
  define nM where "nM = (\<lambda>m. m[index_of ?cM kM := normalize_key (cell_at ?cM m kM)])"
  define T1 where "T1 = ?T\<lparr>rows := map nT (rows ?T)\<rparr>"
  define M1 where "M1 = ?M\<lparr>rows := map nM (rows ?M)\<rparr>"
  define s0 where "s0 = s\<lparr>merged_df := T1, map_df := M1, mapped_columns := []\<rparr>"
  define s1 where "s1 = lookup_loop method kT kM V s0"
  have normT: "normalize_key_column kT ?T = Inr T1"
    unfolding T1_def nT_def using kT1 by (rule normalize_key_column_ok)
  have normM: "normalize_key_column kM ?M = Inr M1"
    unfolding M1_def nM_def using kM1 by (rule normalize_key_column_ok)
  have cT1: "columns T1 = ?cT" and cM1: "columns M1 = ?cM"
    by (simp_all add: T1_def M1_def)
  have keyT1: "cell_at ?cT (nT r) kT = normalize_key (cell_at ?cT r kT)"
    if "r \<in> set (rows ?T)" for r
    unfolding nT_def using kT rectangularD [OF rT that] by (rule normalized_key_cell)
  have keyM1: "cell_at ?cM (nM m) kM = normalize_key (cell_at ?cM m kM)"
    if "m \<in> set (rows ?M)" for m
    unfolding nM_def using kM rectangularD [OF rM that] by (rule normalized_key_cell)
  have absent1: "key_absent M1 kM k =
        (k \<notin> set (map (\<lambda>m. normalize_key (cell_at ?cM m kM)) (rows ?M)))" for k
  proof -
    have e: "map ((\<lambda>m. cell_at ?cM m kM) \<circ> nM) (rows ?M) =
          map (\<lambda>m. normalize_key (cell_at ?cM m kM)) (rows ?M)"
      using keyM1 by simp
    have "map (\<lambda>m. cell_at ?cM m kM) (map nM (rows ?M)) =
          map (\<lambda>m. normalize_key (cell_at ?cM m kM)) (rows ?M)"
      unfolding map_map e ..
    then show ?thesis unfolding key_absent_def M1_def by simp
  qed
  have keys0: "absent_keys kT kM s0 =
        filter (key_absent M1 kM) (map (\<lambda>r. normalize_key (cell_at ?cT r kT)) (rows ?T))"
  proof -
    have e: "map ((\<lambda>r. cell_at ?cT r kT) \<circ> nT) (rows ?T) =
          map (\<lambda>r. normalize_key (cell_at ?cT r kT)) (rows ?T)"
      using keyT1 by simp
    show ?thesis by (simp add: absent_keys_def s0_def T1_def e)
  qed
  have inv0: "lookup_inv kT kM ?cT V s0"
  proof -
    have "rectangular T1"
      using rT by (simp add: rectangular_def T1_def nT_def)
    then show ?thesis
      using kT1 newV by (simp add: lookup_inv_def s0_def cT1)
  qed
  have m0: "map_df s0 = M1" and c0: "columns (merged_df s0) = ?cT"
    and mc0: "mapped_columns s0 = []" and msg0: "messages s0 = messages s"
    by (simp_all add: s0_def cT1)
  have loop: "lookup_inv kT kM ?cT [] s1 \<and>
         map_df s1 = map_df s0 \<and>
         absent_keys kT kM s1 = absent_keys kT kM s0 \<and>
         (\<exists>P. mapped_columns s1 = mapped_columns s0 @ map new_col_name (filter P V) \<and>
              (V \<noteq> [] \<and> columns (merged_df s0) = ?cT \<longrightarrow> P (hd V)) \<and>
              (method = Method_map \<or> kT = kM \<longrightarrow> (\<forall>v \<in> set V. P v))) \<and>
         (method = Method_map \<or> kT = kM \<longrightarrow>
            messages s1 = messages s0 \<and>
            columns (merged_df s1) = columns (merged_df s0) @ map new_col_name V)"
    unfolding s1_def
  proof (rule lookup_loop_inv [OF inv0])
    show "distinct (columns (map_df s0))" "kM \<in> set (columns (map_df s0))"
      "set V \<subseteq> set (columns (map_df s0))" "kM \<notin> set V" "distinct V"
      using dM kM VM kMV dV by (simp_all add: m0 cM1)
    show "new_col_name w \<noteq> kM" if "w \<in> set V" for w using newV [OF that] by simp
    show "method = Method_merge \<and> kT \<noteq> kM \<longrightarrow>
            kM \<notin> set ?cT \<and> kT \<noteq> kM @ ''_x'' \<and> kT \<noteq> kM @ ''_y''" by (rule h)
  qed
  then obtain P where inv1: "lookup_inv kT kM ?cT [] s1" and m1: "map_df s1 = M1"
    and keys1: "absent_keys kT kM s1 = absent_keys kT kM s0"
    and mapped1: "mapped_columns s1 = map new_col_name (filter P V)"
    and P1: "V \<noteq> [] \<Longrightarrow> P (hd V)"
    and Pall: "method = Method_map \<or> kT = kM \<Longrightarrow> \<forall>v \<in> set V. P v"
    and same1: "method = Method_map \<or> kT = kM \<Longrightarrow>
            messages s1 = messages s \<and> columns (merged_df s1) = ?cT @ map new_col_name V"
    unfolding m0 c0 mc0 msg0 by auto
  let ?t2 = "merged_df s1"
  from inv1 have r2: "rectangular ?t2" and kT2: "count_list (columns ?t2) kT = 1"
    and pre2: "\<exists>ext. columns ?t2 = ?cT @ ext" and dm2: "distinct (mapped_columns s1)"
    and cnt2: "\<And>c. c \<in> set (mapped_columns s1) \<Longrightarrow> count_list (columns ?t2) c = 1"
    and sent2: "\<And>r c. r \<in> set (rows ?t2) \<Longrightarrow>
                  key_absent M1 kM (cell_at (columns ?t2) r kT) \<Longrightarrow>
                  c \<in> set (mapped_columns s1) \<Longrightarrow> cell_at (columns ?t2) r c = Text ''Not Matched''"
    unfolding lookup_inv_def m1 by auto
  have "\<exists>t g. reorder_columns (rev (mapped_columns s1)) ?t2 = Inr t \<and>
           columns t = mapped_columns s1 @
                       filter (\<lambda>x. x \<notin> set (mapped_columns s1)) (columns ?t2) \<and>
           rows t = map g (rows ?t2) \<and> rectangular t \<and>
           (\<forall>r \<in> set (rows ?t2). \<forall>k. cell_at (columns t) (g r) k = cell_at (columns ?t2) r k)"
    using reorder_columns_ok [OF r2, of "rev (mapped_columns s1)"] dm2 cnt2 by simp
  then obtain t g where re: "reorder_columns (rev (mapped_columns s1)) ?t2 = Inr t"
    and cols_t: "columns t = mapped_columns s1 @
                   filter (\<lambda>x. x \<notin> set (mapped_columns s1)) (columns ?t2)"
    and rows_t: "rows t = map g (rows ?t2)"
    and cell_t: "\<And>r k. r \<in> set (rows ?t2) \<Longrightarrow> cell_at (columns t) (g r) k = cell_at (columns ?t2) r k"
    by blast
  have kT2_in: "kT \<in> set (columns ?t2)" using kT2 by (rule count_list_1_mem)
  have kT_t: "kT \<in> set (columns t)"
    unfolding cols_t using kT2_in by auto
  have s': "?s' = s1\<lparr>merged_df := t, lookup_done := True\<rparr>"
    using ne kT_t
    by (simp add: perform_lookup_def normT normM Let_def s0_def [symmetric] s1_def [symmetric] re)
  have g1: "lookup_done ?s'" by (simp add: s')
  have g2: "map_df ?s' = ?M\<lparr>rows := map nM (rows ?M)\<rparr>"
    by (simp add: s' m1 M1_def)
  have md: "map_df ?s' = M1" by (simp add: s' m1)
  have g3: "key_absent (map_df ?s') kM k =
        (k \<notin> set (map (\<lambda>m. normalize_key (cell_at ?cM m kM)) (rows ?M)))" for k
    unfolding md by (rule absent1)
  have cs': "columns (merged_df ?s') = columns t" and rs': "rows (merged_df ?s') = map g (rows ?t2)"
    and ms': "mapped_columns ?s' = mapped_columns s1"
    by (simp_all add: s' rows_t)
  have g4: "cell_at (columns (merged_df ?s')) r c = Text ''Not Matched''"
    if "r \<in> set (rows (merged_df ?s'))"
      and "key_absent (map_df ?s') kM (cell_at (columns (merged_df ?s')) r kT)"
      and "c \<in> set (mapped_columns ?s')" for r c
  proof -
    from that(1) obtain r0 where r0: "r0 \<in> set (rows ?t2)" and r: "r = g r0"
      unfolding rs' by auto
    have "key_absent M1 kM (cell_at (columns ?t2) r0 kT)"
      using that(2) unfolding md cs' r cell_t [OF r0] .
    then have "cell_at (columns ?t2) r0 c = Text ''Not Matched''"
      using r0 that(3) unfolding ms' by (intro sent2)
    then show ?thesis unfolding cs' r cell_t [OF r0] .
  qed
  have g5: "absent_keys kT kM ?s' =
       filter (key_absent (map_df ?s') kM)
         (map (\<lambda>r. normalize_key (cell_at ?cT r kT)) (rows ?T))"
  proof -
    have e: "map ((\<lambda>r. cell_at (columns t) r kT) \<circ> g) (rows ?t2) =
          map (\<lambda>r. cell_at (columns ?t2) r kT) (rows ?t2)"
      using cell_t by simp
    have "absent_keys kT kM ?s' = absent_keys kT kM s1"
      unfolding absent_keys_def md cs' rs' m1 by (simp add: e)
    then show ?thesis unfolding keys1 keys0 md .
  qed
  from pre2 obtain ext where ext: "columns ?t2 = ?cT @ ext" by blast
  define rest where "rest = filter (\<lambda>x. x \<notin> set (mapped_columns s1)) ext"
  have disj: "c \<notin> set (mapped_columns s1)" if "c \<in> set ?cT" for c
    using that newV unfolding mapped1 by auto
  have "filter (\<lambda>x. x \<notin> set (mapped_columns s1)) ?cT = ?cT"
    using disj by (simp add: filter_id_conv)
  then have g6: "columns (merged_df ?s') = mapped_columns ?s' @ ?cT @ rest"
    unfolding cs' ms' cols_t ext rest_def by simp
  have rest_empty: "rest = []" if "method = Method_map \<or> kT = kM"
  proof -
    from same1 [OF that] have "?cT @ ext = ?cT @ map new_col_name V" unfolding ext by simp
    then have "ext = map new_col_name V" by simp
    moreover have "filter P V = V" using Pall [OF that] by (simp add: filter_id_conv)
    ultimately show ?thesis unfolding rest_def mapped1 by (simp add: filter_empty_conv)
  qed
  have g7: "messages ?s' = messages s" if "method = Method_map \<or> kT = kM"
    using same1 [OF that] by (simp add: s')
  have g8: "\<exists>P rest. mapped_columns ?s' = map new_col_name (filter P V) \<and>
        (V \<noteq> [] \<longrightarrow> P (hd V)) \<and>
        (method = Method_map \<or> kT = kM \<longrightarrow> (\<forall>v \<in> set V. P v) \<and> rest = []) \<and>
        columns (merged_df ?s') = mapped_columns ?s' @ ?cT @ rest"
    using mapped1 P1 Pall rest_empty g6 unfolding ms'
    by (intro exI [of _ P] exI [of _ rest]) auto
  show ?thesis
    using g1 g2 g3 g4 g5 g7 g8 unfolding nM_def by blast
qed

subsection \<open>The claims about the lookup\<close>

lemma perform_lookup_rows_le:
  assumes loop: "\<And>s0. length (rows (merged_df s0)) \<le>
                 length (rows (merged_df (lookup_loop method kt km vs s0)))"
  shows "length (rows (merged_df s)) \<le> length (rows (merged_df (perform_lookup kt km vs method s)))"
proof (cases "df_empty (merged_df s)")
  case True
  then show ?thesis by (simp add: perform_lookup_def)
next
  case ne: False
  show ?thesis
  proof (cases "normalize_key_column kt (merged_df s)")
    case (Inl e)
    then show ?thesis using ne by (simp add: perform_lookup_def)
  next
    case t: (Inr t)
    then have len_t: "length (rows t) = length (rows (merged_df s))"
      by (rule normalize_key_column_rows)
    show ?thesis
    proof (cases "normalize_key_column km (map_df s)")
      case (Inl e)
      then show ?thesis using ne t len_t by (simp add: perform_lookup_def)
    next
      case m: (Inr m)
      define s0 where "s0 = s\<lparr>merged_df := t, map_df := m, mapped_columns := []\<rparr>"
      define s1 where "s1 = lookup_loop method kt km vs s0"
      have "length (rows (merged_df s0)) \<le> length (rows (merged_df s1))"
        unfolding s1_def by (rule loop)
      then have le: "length (rows (merged_df s)) \<le> length (rows (merged_df s1))"
        using len_t by (simp add: s0_def)
      have unfold: "perform_lookup kt km vs method s =
          (case reorder_columns (rev (mapped_columns s1)) (merged_df s1) of
             Inl (e, t') \<Rightarrow> s1\<lparr>merged_df := t', messages := messages s1 @ [MappingFileError e]\<rparr>
           | Inr t' \<Rightarrow>
               (if kt \<in> set (columns t')
                then s1\<lparr>merged_df := t', lookup_done := True\<rparr>
                else s1\<lparr>merged_df := t', lookup_done := True,
                        messages := messages s1 @ [MappingFileError (KeyError kt)]\<rparr>))"
        using ne by (simp add: perform_lookup_def t m Let_def s0_def [symmetric] s1_def [symmetric])
      show ?thesis
      proof (cases "reorder_columns (rev (mapped_columns s1)) (merged_df s1)")
        case (Inl p)
        obtain e t' where p: "p = (e, t')" by (cases p)
        have "length (rows t') = length (rows (merged_df s1))"
          using Inl unfolding p by (rule reorder_columns_rows(2))
        then show ?thesis using le by (simp add: unfold Inl p)
      next
        case (Inr t')
        then have "length (rows t') = length (rows (merged_df s1))"
          by (rule reorder_columns_rows(1))
        then show ?thesis using le by (simp add: unfold Inr)
      qed
    qed
  qed
qed

lemma lookup_round_map_df: "map_df (lookup_round method kt km v s) = map_df s"
  by (simp add: lookup_round_def split: prod.splits option.splits)

lemma lookup_loop_map_df: "map_df (lookup_loop method kt km vs s) = map_df s"
  by (induction vs arbitrary: s) (simp_all add: lookup_round_map_df)

lemma normalize_key_column_result:
  "normalize_key_column key df = Inr t \<Longrightarrow>
   t = df\<lparr>rows := map (\<lambda>r. r[index_of (columns df) key :=
                              normalize_key (cell_at (columns df) r key)]) (rows df)\<rparr>"
  by (auto simp: normalize_key_column_def split: if_splits)

lemma perform_lookup_map_df:
  "map_df (perform_lookup kt km vs method s) = map_df s \<or>
   map_df (perform_lookup kt km vs method s) =
     (map_df s)\<lparr>rows := map (\<lambda>m. m[index_of (columns (map_df s)) km :=
                                  normalize_key (cell_at (columns (map_df s)) m km)])
                          (rows (map_df s))\<rparr>"
  by (auto simp: perform_lookup_def Let_def lookup_loop_map_df split: sum.splits prod.splits
      dest!: normalize_key_column_result)

lemma merge_step_map_df: "merge_step idx file s = Inr s' \<Longrightarrow> map_df s' = map_df s"
  by (auto simp: merge_step_def Let_def split: if_splits sum.splits)

text \<open>The definitions that a run of the lookup on given tables unfolds.\<close>

lemmas lookup_eval =
  perform_lookup_def initial_session_def df_empty_def normalize_key_column_def
  cell_at_def normalize_key_def to_str_def upper_def upper_char_def strip_def is_space_def
  lookup_round_def lookup_map_def lookup_merge_def select_columns_def rename_column_def
  pd_merge_left_def drop_column_def suffix_labels_def suffix_causes_duplicates_def
  fillna_column_def iter_column_def dict_get_def set_column_def new_col_name_def
  move_to_front_def nth_cell_def Let_def

text \<open>
  C4. The lookup never removes rows of the merged table: for every session, key columns
  and value columns, under the \<^verbatim>\<open>"merge"\<close> method the merged table has at least
  as many rows after the lookup as before, and under the \<^verbatim>\<open>"map"\<close> method exactly
  as many. This holds on every path of the lookup, the failing ones too.
\<close>

theorem lookup_never_removes_rows:
  "length (rows (merged_df s)) \<le>
     length (rows (merged_df (perform_lookup key_col_main key_col_map value_cols Method_merge s))) \<and>
   length (rows (merged_df (perform_lookup key_col_main key_col_map value_cols Method_map s))) =
     length (rows (merged_df s))"
proof
  show "length (rows (merged_df s)) \<le>
     length (rows (merged_df (perform_lookup key_col_main key_col_map value_cols Method_merge s)))"
    by (rule perform_lookup_rows_le) (rule lookup_loop_merge_rows)
  show "length (rows (merged_df (perform_lookup key_col_main key_col_map value_cols Method_map s))) =
     length (rows (merged_df s))"
    by (rule perform_lookup_rows) (rule lookup_loop_map_rows)
qed

text \<open>
  An instance: the mapping table has two rows with the key \<open>A1\<close>, the merged table
  one. The \<^verbatim>\<open>"merge"\<close> method gives two rows, the \<^verbatim>\<open>"map"\<close> method one.
\<close>

theorem lookup_never_removes_rows_witness:
  "length (rows (merged_df (perform_lookup ''ID'' ''ID'' [''Name''] Method_merge
     (initial_session\<lparr>merged_df := \<lparr>columns = [''ID''], rows = [[Text ''a1'']]\<rparr>,
                      map_df := \<lparr>columns = [''ID'', ''Name''],
                                 rows = [[Text ''A1'', Text ''Bob''], [Text ''a1 '', Text ''Bill'']]\<rparr>\<rparr>)))) = 2 \<and>
   length (rows (merged_df (perform_lookup ''ID'' ''ID'' [''Name''] Method_map
     (initial_session\<lparr>merged_df := \<lparr>columns = [''ID''], rows = [[Text ''a1'']]\<rparr>,
                      map_df := \<lparr>columns = [''ID'', ''Name''],
                                 rows = [[Text ''A1'', Text ''Bob''], [Text ''a1 '', Text ''Bill'']]\<rparr>\<rparr>)))) = 1"
  using lookup_never_removes_rows
    [of "initial_session\<lparr>merged_df := \<lparr>columns = [''ID''], rows = [[Text ''a1'']]\<rparr>,
                      map_df := \<lparr>columns = [''ID'', ''Name''],
                                 rows = [[Text ''A1'', Text ''Bob''], [Text ''a1 '', Text ''Bill'']]\<rparr>\<rparr>"
        "''ID''" "''ID''" "[''Name'']"]
  by (simp add: lookup_eval)





text \<open>
  C8, as amended. The lookup writes to the mapping table: it leaves it as it is (when it
  stops before line 118) or overwrites the cells of its key column with their normalized
  keys, and for a request that meets \<open>lookup_request_ok\<close> it does the latter. The
  labels, the number of rows and the cells of the other columns stay. A round of the
  merge loop does not change the mapping table.
\<close>

theorem mapping_key_column_overwritten:
  "(map_df (perform_lookup key_col_main key_col_map value_cols method s) = map_df s \<or>
    map_df (perform_lookup key_col_main key_col_map value_cols method s) =
      (map_df s)\<lparr>rows := map (\<lambda>m. m[index_of (columns (map_df s)) key_col_map :=
                                   normalize_key (cell_at (columns (map_df s)) m key_col_map)])
                           (rows (map_df s))\<rparr>) \<and>
   (lookup_request_ok key_col_main key_col_map value_cols method s \<longrightarrow>
    map_df (perform_lookup key_col_main key_col_map value_cols method s) =
      (map_df s)\<lparr>rows := map (\<lambda>m. m[index_of (columns (map_df s)) key_col_map :=
                                   normalize_key (cell_at (columns (map_df s)) m key_col_map)])
                           (rows (map_df s))\<rparr>) \<and>
   (\<forall>idx f s'. merge_step idx f s = Inr s' \<longrightarrow> map_df s' = map_df s)"
proof (intro conjI impI allI)
  show "map_df (perform_lookup key_col_main key_col_map value_cols method s) = map_df s \<or>
    map_df (perform_lookup key_col_main key_col_map value_cols method s) =
      (map_df s)\<lparr>rows := map (\<lambda>m. m[index_of (columns (map_df s)) key_col_map :=
                                   normalize_key (cell_at (columns (map_df s)) m key_col_map)])
                           (rows (map_df s))\<rparr>"
    by (rule perform_lookup_map_df)
  show "map_df (perform_lookup key_col_main key_col_map value_cols method s) =
      (map_df s)\<lparr>rows := map (\<lambda>m. m[index_of (columns (map_df s)) key_col_map :=
                                   normalize_key (cell_at (columns (map_df s)) m key_col_map)])
                           (rows (map_df s))\<rparr>"
    if "lookup_request_ok key_col_main key_col_map value_cols method s"
    using perform_lookup_ok [OF that] by blast
  show "map_df s' = map_df s" if "merge_step idx f s = Inr s'" for idx f s'
    using that by (rule merge_step_map_df)
qed

theorem mapping_key_column_overwritten_witness:
  "lookup_request_ok ''ID'' ''Key'' [''Name''] Method_merge
     (initial_session\<lparr>merged_df := \<lparr>columns = [''ID''], rows = [[Text ''b2'']]\<rparr>,
                      map_df := \<lparr>columns = [''Key'', ''Name''],
                                 rows = [[Text ''b2 '', Text ''Ann''], [Missing, Text ''Cy'']]\<rparr>\<rparr>) \<and>
   map_df (perform_lookup ''ID'' ''Key'' [''Name''] Method_merge
     (initial_session\<lparr>merged_df := \<lparr>columns = [''ID''], rows = [[Text ''b2'']]\<rparr>,
                      map_df := \<lparr>columns = [''Key'', ''Name''],
                                 rows = [[Text ''b2 '', Text ''Ann''], [Missing, Text ''Cy'']]\<rparr>\<rparr>))
   = \<lparr>columns = [''Key'', ''Name''], rows = [[Text ''B2'', Text ''Ann''], [Text ''NAN'', Text ''Cy'']]\<rparr>"
proof -
  have ok: "lookup_request_ok ''ID'' ''Key'' [''Name''] Method_merge
     (initial_session\<lparr>merged_df := \<lparr>columns = [''ID''], rows = [[Text ''b2'']]\<rparr>,
                      map_df := \<lparr>columns = [''Key'', ''Name''],
                                 rows = [[Text ''b2 '', Text ''Ann''], [Missing, Text ''Cy'']]\<rparr>\<rparr>)"
    by (simp add: lookup_request_ok_def df_empty_def rectangular_def new_col_name_def
        initial_session_def)
  show ?thesis
    using mapping_key_column_overwritten
      [of "''ID''" "''Key''" "[''Name'']" Method_merge
          "initial_session\<lparr>merged_df := \<lparr>columns = [''ID''], rows = [[Text ''b2'']]\<rparr>,
                      map_df := \<lparr>columns = [''Key'', ''Name''],
                                 rows = [[Text ''b2 '', Text ''Ann''], [Missing, Text ''Cy'']]\<rparr>\<rparr>"]
      ok
    by (simp add: initial_session_def cell_at_def normalize_key_def to_str_def upper_def
        upper_char_def strip_def is_space_def)
qed

text \<open>
  C8, the claim as stated fails: the mapping table has the key \<open> a1\<close>; after the
  lookup its key cell is \<open>A1\<close>.
\<close>

theorem mapping_table_mutated_counterexample:
  "map_df (perform_lookup ''ID'' ''ID'' [''Name''] Method_map
     (initial_session\<lparr>merged_df := \<lparr>columns = [''ID''], rows = [[Text ''a1'']]\<rparr>,
                      map_df := \<lparr>columns = [''ID'', ''Name''], rows = [[Text '' a1'', Text ''Bob'']]\<rparr>\<rparr>))
   = \<lparr>columns = [''ID'', ''Name''], rows = [[Text ''A1'', Text ''Bob'']]\<rparr> \<and>
   map_df (perform_lookup ''ID'' ''ID'' [''Name''] Method_map
     (initial_session\<lparr>merged_df := \<lparr>columns = [''ID''], rows = [[Text ''a1'']]\<rparr>,
                      map_df := \<lparr>columns = [''ID'', ''Name''], rows = [[Text '' a1'', Text ''Bob'']]\<rparr>\<rparr>))
   \<noteq> \<lparr>columns = [''ID'', ''Name''], rows = [[Text '' a1'', Text ''Bob'']]\<rparr>"
  by (simp add: lookup_eval)

end
